theory Spec2Isabelle
  imports Complex_Main "HOL-Library.List_Lexorder" "HOL-Library.Char_ord"
    "HOL-Library.Option_ord" "HOL-Library.Product_Lexorder"
begin

section \<open>Values and machine integers\<close>

text \<open>
  The aggregator is a template over the floating-point type \<open>T\<close> (\<open>float\<close> or
  \<open>double\<close>). A value of type \<open>T\<close> is modelled as \<open>real option\<close>: \<open>None\<close> is the
  missing value (NaN, what \<open>ISNA<T>\<close> tests), \<open>Some x\<close> a number. The machine epsilon of
  \<open>T\<close> is the parameter \<open>eps\<close> of the functions that use it. The arithmetic of the
  normalization coefficients and of the bin numbers is rounded to \<open>T\<close> after every
  operation (\<open>round_T\<close> below); the distance kernel adds and multiplies exactly.
\<close>

type_synonym tval = "real option"

definition ISNA :: "tval \<Rightarrow> bool" where
  "ISNA v = (v = None)"

definition epsilon_float :: real where
  "epsilon_float = 1 / 2 ^ 23"

definition epsilon_double :: real where
  "epsilon_double = 1 / 2 ^ 52"

text \<open>\<open>GETNA<int32_t>()\<close>: the missing value of an \<open>int32_t\<close> column is \<open>INT32_MIN\<close>.\<close>

definition NA_I4 :: int where
  "NA_I4 = - 2147483648"

text \<open>\<open>static_cast<int32_t>\<close> of an integer: two's complement wrap-around.\<close>

definition to_i32 :: "int \<Rightarrow> int" where
  "to_i32 z = (z + 2147483648) mod 4294967296 - 2147483648"

text \<open>
  \<open>static_cast<int32_t>\<close> of a floating-point number truncates towards zero (the
  conversion is undefined in C++ when the truncated value is not an \<open>int32_t\<close>; the
  model wraps there).
\<close>

definition i32_of_real :: "real \<Rightarrow> int" where
  "i32_of_real r = to_i32 (if 0 \<le> r then \<lfloor>r\<rfloor> else \<lceil>r\<rceil>)"

definition b2i :: "bool \<Rightarrow> int" where
  "b2i b = (if b then 1 else 0)"

section \<open>Rounding to \<open>T\<close>\<close>

text \<open>
  The nearest integer, a tie going to the even one.
\<close>

definition round_even :: "real \<Rightarrow> int" where
  "round_even y =
     (let n = \<lfloor>y\<rfloor>; r = y - of_int n
      in if r < 1 / 2 then n else if 1 / 2 < r then n + 1 else if even n then n else n + 1)"

text \<open>
  The distance between neighbouring numbers of \<open>T\<close> around \<open>x\<close>: it is the machine
  epsilon \<open>u\<close> for \<open>1 \<le> \<bar>x\<bar> < 2\<close>, and doubles and halves with the binade of \<open>x\<close>. The
  exponent is not bounded: there is no overflow to infinity and there are no
  subnormal numbers.
\<close>

function ulp :: "real \<Rightarrow> real \<Rightarrow> real" where
  "ulp u x = (if x = 0 then u
              else if 2 \<le> \<bar>x\<bar> then ulp (2 * u) (x / 2)
              else if \<bar>x\<bar> < 1 then ulp (u / 2) (2 * x)
              else u)"
  by pat_completeness auto

termination
proof -
  have half: "\<lceil>a / 2\<rceil> < \<lceil>a\<rceil>" if "1 < a" for a :: real
  proof -
    have "2 \<le> \<lceil>a\<rceil>" using that by linarith
    then have "a / 2 \<le> of_int (\<lceil>a\<rceil> - 1)" by linarith
    then have "\<lceil>a / 2\<rceil> \<le> \<lceil>a\<rceil> - 1" by (simp only: ceiling_le_iff)
    then show ?thesis by simp
  qed
  show ?thesis
  proof (relation "measure (\<lambda>(u, x). nat \<lceil>\<bar>x\<bar>\<rceil> + 2 * nat \<lceil>1 / \<bar>x\<bar>\<rceil>)")
    show "wf (measure (\<lambda>(u, x). nat \<lceil>\<bar>x\<bar>\<rceil> + 2 * nat \<lceil>1 / \<bar>x\<bar>\<rceil>))" by simp
  next
    fix u x :: real
    assume x: "x \<noteq> 0" "2 \<le> \<bar>x\<bar>"
    have a: "\<lceil>\<bar>x\<bar> / 2\<rceil> < \<lceil>\<bar>x\<bar>\<rceil>" using x by (intro half) simp
    have "0 < 1 / \<bar>x\<bar>" "1 / \<bar>x\<bar> \<le> 1" using x by (simp_all add: field_simps)
    then have b: "\<lceil>1 / \<bar>x\<bar>\<rceil> = 1" by (simp add: ceiling_eq_iff)
    have "0 < 2 / \<bar>x\<bar>" "2 / \<bar>x\<bar> \<le> 1" using x by (simp_all add: field_simps)
    then have c: "\<lceil>2 / \<bar>x\<bar>\<rceil> = 1" by (simp add: ceiling_eq_iff)
    have "0 < \<lceil>\<bar>x\<bar> / 2\<rceil>" using x by simp
    with a b c
    show "((2 * u, x / 2), (u, x)) \<in> measure (\<lambda>(u, x). nat \<lceil>\<bar>x\<bar>\<rceil> + 2 * nat \<lceil>1 / \<bar>x\<bar>\<rceil>)"
      by (simp add: abs_divide)
  next
    fix u x :: real
    assume x: "x \<noteq> 0" "\<not> 2 \<le> \<bar>x\<bar>" "\<bar>x\<bar> < 1"
    have "1 < 1 / \<bar>x\<bar>" using x by (simp add: field_simps)
    from half [OF this] have a: "\<lceil>1 / \<bar>x\<bar> / 2\<rceil> < \<lceil>1 / \<bar>x\<bar>\<rceil>" .
    have p: "0 < \<lceil>1 / \<bar>x\<bar> / 2\<rceil>" using x by simp
    have b: "\<lceil>\<bar>x\<bar>\<rceil> = 1" using x by (simp add: ceiling_eq_iff)
    have "2 * \<bar>x\<bar> \<le> 2" using x by simp
    then have c: "\<lceil>2 * \<bar>x\<bar>\<rceil> \<le> 2" by (simp add: ceiling_le_iff)
    have d: "1 / \<bar>2 * x\<bar> = 1 / \<bar>x\<bar> / 2" by (simp add: abs_mult)
    from a p b c
    show "((u / 2, 2 * x), (u, x)) \<in> measure (\<lambda>(u, x). nat \<lceil>\<bar>x\<bar>\<rceil> + 2 * nat \<lceil>1 / \<bar>x\<bar>\<rceil>)"
      unfolding in_measure prod.case d by (simp add: abs_mult) linarith
  qed
qed

declare ulp.simps [simp del]

text \<open>
  The result in \<open>T\<close> of an operation whose exact result is \<open>x\<close>: the multiple of
  \<open>ulp eps x\<close> nearest to \<open>x\<close>, a tie going to the even multiple (the default rounding
  mode). Every operation on \<open>T\<close> values rounds once: a product and the sum that
  follows it are two operations, not contracted into one.
\<close>

definition round_T :: "real \<Rightarrow> real \<Rightarrow> real" where
  "round_T eps x = (let q = ulp eps x in of_int (round_even (x / q)) * q)"

section \<open>Column convertors and normalization\<close>

text \<open>
  \<open>ColumnConvertor<T>\<close>: the values of a numeric column read as \<open>T\<close>, with the
  cached minimum and maximum.
\<close>

record colconv =
  cc_min :: real
  cc_max :: real
  cc_vals :: "tval list"

definition get_nrows :: "colconv \<Rightarrow> nat" where
  "get_nrows c = length (cc_vals c)"

text \<open>
  \<open>set_norm_coeffs\<close>, for a column with finite \<open>c_min\<close> and \<open>c_max\<close>. The difference
  \<open>c_max - c_min\<close>, \<open>1 - epsilon\<close>, the product with \<open>c_bins\<close>, the quotient and the
  product \<open>-norm_factor * c_min\<close> are each rounded to \<open>T\<close>. The conversion of the
  \<open>size_t\<close> \<open>c_bins\<close> to \<open>T\<close> is taken as exact, which it is for a bin count up to
  \<open>2 / eps\<close> (\<open>2\<^sup>5\<^sup>3\<close> for \<open>double\<close>, \<open>2\<^sup>2\<^sup>4\<close> for \<open>float\<close>), and so is the product with \<open>0.5\<close>.
\<close>

definition set_norm_coeffs :: "real \<Rightarrow> real \<Rightarrow> real \<Rightarrow> nat \<Rightarrow> real \<times> real" where
  "set_norm_coeffs eps c_min c_max c_bins =
     (if \<bar>round_T eps (c_max - c_min)\<bar> > eps
      then (let norm_factor =
                  round_T eps (round_T eps (real c_bins * round_T eps (1 - eps))
                               / round_T eps (c_max - c_min))
            in (norm_factor, round_T eps (- norm_factor * c_min)))
      else (0, 0.5 * real c_bins))"


text \<open>
  \<open>norm_factor * value + norm_shift\<close> as the grouping functions compute it in \<open>T\<close> for
  a value that is not NaN: the product is rounded, then the sum.
\<close>

definition norm_T :: "real \<Rightarrow> real \<times> real \<Rightarrow> real \<Rightarrow> real" where
  "norm_T eps coeffs x = round_T eps (round_T eps (fst coeffs * x) + snd coeffs)"

section \<open>Distance kernel\<close>

text \<open>
  The loop of \<open>calculate_distance\<close> over the indices still to visit, with the
  running \<open>sum\<close> (here \<open>acc\<close>) and \<open>n\<close>: \<open>Inl s\<close> is the early return of \<open>s\<close>,
  \<open>Inr (acc, n)\<close> the state when the loop ends.
\<close>

fun distance_loop ::
  "tval list \<Rightarrow> tval list \<Rightarrow> real \<Rightarrow> bool \<Rightarrow> nat list \<Rightarrow> real \<Rightarrow> nat \<Rightarrow> real + real \<times> nat"
where
  "distance_loop e1 e2 delta early_exit [] acc n = Inr (acc, n)"
| "distance_loop e1 e2 delta early_exit (i # is) acc n =
     (case (e1 ! i, e2 ! i) of
        (Some a, Some b) \<Rightarrow>
          (let acc' = acc + (a - b) * (a - b)
           in if early_exit \<and> acc' > delta then Inl acc'
              else distance_loop e1 e2 delta early_exit is acc' (n + 1))
      | _ \<Rightarrow> distance_loop e1 e2 delta early_exit is acc n)"

text \<open>
  \<open>sum * ndims / n\<close> is a floating-point division: with \<open>n = 0\<close> (and then
  \<open>sum = 0\<close>) it is NaN.
\<close>

definition calculate_distance :: "tval list \<Rightarrow> tval list \<Rightarrow> nat \<Rightarrow> real \<Rightarrow> bool \<Rightarrow> tval" where
  "calculate_distance e1 e2 ndims delta early_exit =
     (case distance_loop e1 e2 delta early_exit [0..<ndims] 0 0 of
        Inl s \<Rightarrow> Some s
      | Inr (acc, n) \<Rightarrow> if n = 0 then None else Some (acc * real ndims / real n))"

text \<open>\<open>distance < delta\<close> on \<open>T\<close>: false when the distance is NaN.\<close>

definition tval_less :: "tval \<Rightarrow> real \<Rightarrow> bool" where
  "tval_less d delta = (case d of None \<Rightarrow> False | Some x \<Rightarrow> x < delta)"

section \<open>Modular traversal of the exemplars\<close>

text \<open>
  The index \<open>j\<close> computed in the \<open>k\<close>-th round of the member test of \<open>group_nd\<close>,
  in \<open>size_t\<close> arithmetic (64 bits), and the sequence of the indices of all
  \<open>nexemplars\<close> rounds; \<open>stride\<close> is \<open>coprimes[coprime_index]\<close>.
\<close>

definition probe_index :: "nat \<Rightarrow> nat \<Rightarrow> nat \<Rightarrow> nat \<Rightarrow> nat" where
  "probe_index nexemplars stride exemplar_index k =
     ((k * stride + exemplar_index) mod 2 ^ 64) mod nexemplars"

definition probe_order :: "nat \<Rightarrow> nat \<Rightarrow> nat \<Rightarrow> nat list" where
  "probe_order nexemplars stride exemplar_index =
     map (probe_index nexemplars stride exemplar_index) [0..<nexemplars]"

text \<open>
  The sequence \<open>j\<^sub>k = (k \<cdot> c + e\<^sub>0) mod n\<close> for \<open>k = 0, \<dots>, n - 1\<close> over the natural
  numbers, to compare \<open>probe_order\<close> with.
\<close>

definition modular_order :: "nat \<Rightarrow> nat \<Rightarrow> nat \<Rightarrow> nat list" where
  "modular_order n c e0 = map (\<lambda>k. (k * c + e0) mod n) [0..<n]"

section \<open>Two continuous columns\<close>

definition group_2d_continuous :: "real \<Rightarrow> nat \<Rightarrow> nat \<Rightarrow> colconv \<Rightarrow> colconv \<Rightarrow> int list" where
  "group_2d_continuous eps nx_bins ny_bins c0 c1 =
     (let normx = set_norm_coeffs eps (cc_min c0) (cc_max c0) nx_bins;
          normy = set_norm_coeffs eps (cc_min c1) (cc_max c1) ny_bins
      in map (\<lambda>i.
            let value0 = cc_vals c0 ! i;
                value1 = cc_vals c1 ! i;
                na_case = b2i (ISNA value0) + 2 * b2i (ISNA value1)
            in if na_case \<noteq> 0 then - na_case
               else to_i32 (to_i32 (i32_of_real (norm_T eps normy (the value1))
                                     * to_i32 (int nx_bins))
                            + i32_of_real (norm_T eps normx (the value0))))
          [0..<get_nrows c0])"

section \<open>Group-by\<close>

text \<open>
  Modelled from the spec: the table group-by primitive \<open>DataTable::group\<close>, which the
  sources call and do not contain. By the spec it returns, for a table and a sort
  spec, \<open>(rowindex, groupby)\<close>, where \<open>rowindex[i]\<close> maps sorted positions to original
  rows and \<open>groupby.offsets()\<close> gives the group start positions. Here the table is
  the list \<open>ks\<close> of the keys of its rows: the groups are taken in ascending order of
  their key, the rows of a group in their original order (the sort is stable),
  \<open>group_ri\<close> is the row index, \<open>group_offsets\<close> the start position of every group
  followed by the number of rows, one entry more than there are groups.
\<close>

definition group_keys :: "'k::linorder list \<Rightarrow> 'k list" where
  "group_keys ks = sort (remdups ks)"

definition group_rows :: "'k::linorder list \<Rightarrow> nat list list" where
  "group_rows ks = map (\<lambda>k. filter (\<lambda>i. ks ! i = k) [0..<length ks]) (group_keys ks)"

fun cumsum :: "nat \<Rightarrow> nat list \<Rightarrow> nat list" where
  "cumsum p [] = [p]"
| "cumsum p (n # ns) = p # cumsum (p + n) ns"

definition group_ri :: "'k::linorder list \<Rightarrow> nat list" where
  "group_ri ks = concat (group_rows ks)"

definition group_offsets :: "'k::linorder list \<Rightarrow> nat list" where
  "group_offsets ks = cumsum 0 (map length (group_rows ks))"

text \<open>\<open>Groupby::ngroups()\<close>, from the offsets.\<close>

definition ngroups :: "nat list \<Rightarrow> nat" where
  "ngroups offsets = length offsets - 1"

text \<open>
  Modelled from the spec: the sort of the table by its first column that \<open>group_0d\<close>
  asks for, "sort by the first column (missing values last)"; the meaning of the
  arguments of \<open>sort_spec(0, false, false, true)\<close> is not in the sources. The result
  is the row index: the rows with a value in ascending order of the value, stably,
  then the rows whose value is missing.
\<close>

definition sort_na_last :: "'a::linorder option list \<Rightarrow> nat list" where
  "sort_na_last col =
     sort_key (\<lambda>i. the (col ! i)) (filter (\<lambda>i. col ! i \<noteq> None) [0..<length col])
     @ filter (\<lambda>i. col ! i = None) [0..<length col]"

section \<open>Sampler\<close>

text \<open>
  The members column \<open>d_members\<close> is an \<open>int list\<close> of \<open>int32_t\<close> values. The offsets
  of a group-by are \<open>int32_t\<close>, so a members column has fewer than \<open>2\<^sup>3\<^sup>1\<close> rows; the
  theorems assume it where a row or group number is cast to \<open>int32_t\<close>.

  \<open>for (j = a; j < b; ++j) d_members[ri[j]] = v\<close>:
\<close>

definition assign_rows :: "nat list \<Rightarrow> nat \<Rightarrow> nat \<Rightarrow> int \<Rightarrow> int list \<Rightarrow> int list" where
  "assign_rows ri a b v d = fold (\<lambda>j d. d[ri ! j := v]) [a..<b] d"

text \<open>
  The \<open>while (k < max_bins)\<close> loop of \<open>sample_exemplars\<close>. The results of the
  successive calls of \<open>rand()\<close> are the list \<open>rs\<close>; the loop may need any number of
  them, and \<open>None\<close> says that it is still running when \<open>rs\<close> is used up. The divisor
  of \<open>rand() % static_cast<int32_t>(ngroups)\<close> is the number of groups itself, for a
  column of fewer than \<open>2\<^sup>3\<^sup>1\<close> rows.
\<close>

fun sample_loop ::
  "nat list \<Rightarrow> nat list \<Rightarrow> nat \<Rightarrow> nat list \<Rightarrow> nat \<Rightarrow> int list \<Rightarrow> int list option"
where
  "sample_loop ri offsets max_bins [] k d = (if k < max_bins then None else Some d)"
| "sample_loop ri offsets max_bins (r # rs) k d =
     (if k < max_bins then
        (let i = r mod ngroups offsets;
             off_i = offsets ! i
         in if d ! (ri ! off_i) = NA_I4
            then (let off_i1 = offsets ! (i + 1)
                  in sample_loop ri offsets max_bins rs (k + 1)
                       (assign_rows ri off_i off_i1 (to_i32 (int k)) d))
            else sample_loop ri offsets max_bins rs k d)
      else Some d)"

text \<open>
  \<open>sample_exemplars\<close> returns the members column and \<open>was_sampled\<close>. The sum
  \<open>max_bins + n_na_bins\<close> is a \<open>size_t\<close>. The seed only determines \<open>rs\<close>.
\<close>

definition sample_exemplars ::
  "nat \<Rightarrow> nat \<Rightarrow> nat list \<Rightarrow> int list \<Rightarrow> (int list \<times> bool) option"
where
  "sample_exemplars max_bins n_na_bins rs d =
     (let ri_members = group_ri d;
          offsets = group_offsets d
      in if ngroups offsets > (max_bins + n_na_bins) mod 2 ^ 64
         then map_option (\<lambda>d'. (d', True))
                (sample_loop ri_members offsets max_bins rs 0 (replicate (length d) NA_I4))
         else Some (d, False))"

text \<open>
  The selection in the words of the spec: pick group indices one after the other,
  keep an index that has not been selected yet, stop when \<open>max_bins\<close> groups have been
  selected. \<open>sel\<close> lists the selected groups in the order of their selection.
\<close>

fun select_groups :: "nat \<Rightarrow> nat \<Rightarrow> nat list \<Rightarrow> nat list \<Rightarrow> nat list option" where
  "select_groups n max_bins [] sel = (if length sel < max_bins then None else Some sel)"
| "select_groups n max_bins (r # rs) sel =
     (if length sel < max_bins then
        (if r mod n \<in> set sel then select_groups n max_bins rs sel
         else select_groups n max_bins rs (sel @ [r mod n]))
      else Some sel)"

text \<open>
  What a finished selection leaves in the members column \<open>d\<close>, for the groups of
  the column \<open>d0\<close> before sampling: \<open>sel\<close> lists distinct groups, the rows of the
  \<open>j\<close>-th selected group hold \<open>j\<close>, the rows of every other group hold the NA
  sentinel.
\<close>

definition marks_selection :: "int list \<Rightarrow> nat list \<Rightarrow> int list \<Rightarrow> bool" where
  "marks_selection d0 sel d \<longleftrightarrow>
     length d = length d0 \<and> distinct sel \<and> (\<forall>g\<in>set sel. g < length (group_keys d0)) \<and>
     (\<forall>j<length sel. \<forall>r\<in>set (group_rows d0 ! (sel ! j)). d ! r = int j) \<and>
     (\<forall>g<length (group_keys d0). g \<notin> set sel \<longrightarrow> (\<forall>r\<in>set (group_rows d0 ! g). d ! r = NA_I4))"

section \<open>Finalizer\<close>

text \<open>
  \<open>aggregate_exemplars\<close> returns the exemplar row indices, the \<open>members_count\<close>
  column and the rewritten members column. The two arrays of length
  \<open>n_exemplars = ngroups - was_sampled\<close> are written at every index \<open>i - was_sampled\<close> by
  the first loop, for \<open>i\<close> from \<open>was_sampled\<close> to \<open>ngroups - 1\<close>, and are the lists of
  what it writes. (The \<open>size_t\<close> difference would wrap for \<open>was_sampled\<close> without a
  group; \<open>sample_exemplars\<close> samples a column that has groups and leaves its length.)
\<close>

definition aggregate_exemplars :: "bool \<Rightarrow> int list \<Rightarrow> int list \<times> int list \<times> int list" where
  "aggregate_exemplars was_sampled d =
     (let ri_members = group_ri d;
          offsets = group_offsets d;
          ws = (if was_sampled then 1 else 0);
          exemplar_indices =
            map (\<lambda>i. to_i32 (int (ri_members ! (offsets ! i)))) [ws..<ngroups offsets];
          d_counts =
            map (\<lambda>i. to_i32 (int (offsets ! (i + 1)) - int (offsets ! i))) [ws..<ngroups offsets];
          d_members =
            fold (\<lambda>i d. fold (\<lambda>j d. d[ri_members ! (offsets ! i + j) := to_i32 (int (i - ws))])
                          [0..<nat (d_counts ! (i - ws))] d)
              [ws..<ngroups offsets] d
      in (exemplar_indices, d_counts, d_members))"

section \<open>Grouping without and with one continuous column\<close>

text \<open>
  \<open>group_0d\<close> on a table with at least one column, whose first column is \<open>col\<close>:
  \<open>iterate\<close> calls the function with every position \<open>i\<close> and the row \<open>j\<close> at that
  position of the row index.
\<close>

definition group_0d :: "'a::linorder option list \<Rightarrow> int list \<Rightarrow> int list" where
  "group_0d col d =
     (let ri_exemplars = sort_na_last col
      in fold (\<lambda>i d. d[ri_exemplars ! i := to_i32 (int i)]) [0..<length col] d)"

definition group_1d_continuous :: "real \<Rightarrow> nat \<Rightarrow> colconv \<Rightarrow> int list" where
  "group_1d_continuous eps n_bins c0 =
     (let norm = set_norm_coeffs eps (cc_min c0) (cc_max c0) n_bins
      in map (\<lambda>i. let v = cc_vals c0 ! i
                  in if ISNA v then NA_I4 else i32_of_real (norm_T eps norm (the v)))
           [0..<get_nrows c0])"

section \<open>Categorical grouping\<close>

text \<open>
  A string column is a list of \<open>string option\<close>, \<open>None\<close> the missing string (which the
  code recognizes by its offset, \<open>ISNA<U0>(d_c0[gi])\<close>). The keys of its group-by are
  the strings in their lexicographic order, the missing string first; two columns
  are grouped by the pairs of their values.
\<close>

definition group_1d_categorical :: "string option list \<Rightarrow> int list \<Rightarrow> int list" where
  "group_1d_categorical cat d =
     (let ri0 = group_ri cat;
          offsets0 = group_offsets cat
      in fold (\<lambda>i d. assign_rows ri0 (offsets0 ! i) (offsets0 ! (i + 1)) (to_i32 (int i)) d)
           [0..<ngroups offsets0] d)"

definition group_2d_categorical_str ::
  "string option list \<Rightarrow> string option list \<Rightarrow> int list \<Rightarrow> int list"
where
  "group_2d_categorical_str c0 c1 d =
     (let ri = group_ri (zip c0 c1);
          offsets = group_offsets (zip c0 c1)
      in fold (\<lambda>i d.
            let group_id = to_i32 (int i)
            in fold (\<lambda>j d.
                 let gi = ri ! j;
                     na_case = b2i (c0 ! gi = None) + 2 * b2i (c1 ! gi = None)
                 in d[gi := (if na_case \<noteq> 0 then - na_case else group_id)])
               [offsets ! i..<offsets ! (i + 1)] d)
           [0..<ngroups offsets] d)"

definition group_2d_mixed_str ::
  "real \<Rightarrow> nat \<Rightarrow> colconv \<Rightarrow> string option list \<Rightarrow> int list \<Rightarrow> int list"
where
  "group_2d_mixed_str eps nx_bins c0 cat d =
     (let ri_cat = group_ri cat;
          offsets_cat = group_offsets cat;
          normx = set_norm_coeffs eps (cc_min c0) (cc_max c0) nx_bins
      in fold (\<lambda>i d.
            let group_cat_id = to_i32 (int ((nx_bins * i) mod 2 ^ 64))
            in fold (\<lambda>j d.
                 let gi = ri_cat ! j;
                     na_case = b2i (ISNA (cc_vals c0 ! gi)) + 2 * b2i (cat ! gi = None)
                 in d[gi := (if na_case \<noteq> 0 then - na_case
                             else to_i32 (group_cat_id
                                    + i32_of_real (norm_T eps normx (the (cc_vals c0 ! gi)))))])
               [offsets_cat ! i..<offsets_cat ! (i + 1)] d)
           [0..<ngroups offsets_cat] d)"

section \<open>The aggregation\<close>

text \<open>
  A column of the input table: a numeric column (\<open>BOOL\<close> to \<open>FLOAT64\<close>) with its values
  as the convertor reads them, or a column of any other type with its strings.
\<close>

datatype ntype = BOOL | INT8 | INT16 | INT32 | INT64 | FLOAT32 | FLOAT64

datatype ctype = STR32 | STR64 | OTHER

datatype column = NumCol ntype "real option list" | CatCol ctype "string option list"

record datatable =
  nrows :: nat
  columns :: "column list"

record params =
  min_rows :: nat
  n_bins :: nat
  nx_bins :: nat
  ny_bins :: nat
  nd_max_bins :: nat
  max_dimensions :: nat

text \<open>
  Modelled from the spec: \<open>ColumnConvertorReal\<close>, whose source is not among the files.
  "On construction it computes or looks up the cached min/max ignoring missing
  values; a wholly-missing column yields min = max = 0."
\<close>

definition column_convertor :: "real option list \<Rightarrow> colconv" where
  "column_convertor vs =
     (let xs = map the (filter (\<lambda>v. v \<noteq> None) vs)
      in \<lparr>cc_min = (if xs = [] then 0 else Min (set xs)),
          cc_max = (if xs = [] then 0 else Max (set xs)),
          cc_vals = vs\<rparr>)"

text \<open>
  An exception that leaves \<open>aggregate\<close>: the \<open>ValueError\<close> of the 2-D dispatch, an
  exception captured in the parallel region of \<open>group_nd\<close> and rethrown after it
  (an interrupt is one of them), or an exception raised by the progress sink when
  \<open>aggregate\<close> itself reports.
\<close>

datatype exn = Interrupt | Failure

datatype error = ValueError | Rethrown exn | SinkError exn

text \<open>
  What the embedding takes from outside: the results of \<open>rand()\<close>; the contents of the
  freshly allocated members column; the progress sink (\<open>py::oobj::call\<close> and
  \<open>print_progress\<close> are not among the sources), which returns or raises; and
  the outcome of \<open>group_nd\<close>, whose parallel loop depends on the scheduler and is
  not embedded: the exception captured in the loop, or the members column after
  \<open>adjust_members\<close>.
\<close>

record env =
  rand_results :: "nat list"
  fresh_members :: "int list"
  progress_sink :: "real \<Rightarrow> nat \<Rightarrow> exn option"
  nd_outcome :: "exn + int list"

text \<open>A progress sink that always returns.\<close>

definition quiet_sink :: "real \<Rightarrow> nat \<Rightarrow> exn option" where
  [simp]: "quiet_sink p status = None"


record exemplars =
  exemplar_rows :: "int list"
  members_count :: "int list"

record outputs =
  dt_exemplars_in :: "exemplars option"
  dt_members_in :: "int list option"

definition contconvs_of :: "datatable \<Rightarrow> colconv list" where
  "contconvs_of dt =
     concat (map (\<lambda>c. case c of NumCol t vs \<Rightarrow> [column_convertor vs] | CatCol t ss \<Rightarrow> [])
              (columns dt))"

definition catcols_of :: "datatable \<Rightarrow> (ctype \<times> string option list) list" where
  "catcols_of dt =
     concat (map (\<lambda>c. case c of NumCol t vs \<Rightarrow> []
                      | CatCol t ss \<Rightarrow> if length (columns dt) < 3 then [(t, ss)] else [])
              (columns dt))"

definition group_0d_table :: "datatable \<Rightarrow> int list \<Rightarrow> int list" where
  "group_0d_table dt d =
     (case columns dt of
        [] \<Rightarrow> d
      | NumCol t vs # cs \<Rightarrow> group_0d vs d
      | CatCol t ss # cs \<Rightarrow> group_0d ss d)"

definition group_1d ::
  "real \<Rightarrow> params \<Rightarrow> colconv list \<Rightarrow> (ctype \<times> string option list) list \<Rightarrow> int list \<Rightarrow> int list"
where
  "group_1d eps P contconvs dt_cat d =
     (if contconvs \<noteq> [] then group_1d_continuous eps (n_bins P) (contconvs ! 0)
      else group_1d_categorical (snd (dt_cat ! 0)) d)"

definition is_str :: "ctype \<Rightarrow> bool" where
  "is_str t = (t = STR32 \<or> t = STR64)"

definition group_2d_categorical ::
  "(ctype \<times> string option list) list \<Rightarrow> int list \<Rightarrow> error + int list"
where
  "group_2d_categorical dt_cat d =
     (if is_str (fst (dt_cat ! 0)) \<and> is_str (fst (dt_cat ! 1))
      then Inr (group_2d_categorical_str (snd (dt_cat ! 0)) (snd (dt_cat ! 1)) d)
      else Inl ValueError)"

definition group_2d_mixed ::
  "real \<Rightarrow> params \<Rightarrow> colconv list \<Rightarrow> (ctype \<times> string option list) list \<Rightarrow> int list
     \<Rightarrow> error + int list"
where
  "group_2d_mixed eps P contconvs dt_cat d =
     (if is_str (fst (dt_cat ! 0))
      then Inr (group_2d_mixed_str eps (nx_bins P) (contconvs ! 0) (snd (dt_cat ! 0)) d)
      else Inl ValueError)"

definition group_2d ::
  "real \<Rightarrow> params \<Rightarrow> colconv list \<Rightarrow> (ctype \<times> string option list) list \<Rightarrow> int list
     \<Rightarrow> error + int list"
where
  "group_2d eps P contconvs dt_cat d =
     (let ncont = length contconvs
      in if ncont = 0 then group_2d_categorical dt_cat d
         else if ncont = 1 then group_2d_mixed eps P contconvs dt_cat d
         else if ncont = 2
           then Inr (group_2d_continuous eps (nx_bins P) (ny_bins P) (contconvs ! 0) (contconvs ! 1))
         else Inl ValueError)"

definition group_nd :: "env \<Rightarrow> error + int list" where
  "group_nd E = (case nd_outcome E of Inl x \<Rightarrow> Inl (Rethrown x) | Inr d \<Rightarrow> Inr d)"

text \<open>
  The grouping step of \<open>aggregate\<close> for a table with at least \<open>min_rows\<close> rows: the
  members column with \<open>max_bins\<close> and \<open>n_na_bins\<close>, or the exception.
\<close>

definition dispatch ::
  "real \<Rightarrow> params \<Rightarrow> env \<Rightarrow> datatable \<Rightarrow> error + int list \<times> nat \<times> nat"
where
  "dispatch eps P E dt =
     (let contconvs = contconvs_of dt;
          dt_cat = catcols_of dt;
          ncols = length contconvs + length dt_cat;
          d = fresh_members E
      in if ncols = 0 then Inr (group_0d_table dt d, nd_max_bins P, 0)
         else if ncols = 1 then Inr (group_1d eps P contconvs dt_cat d, n_bins P, 1)
         else if ncols = 2 then
           (case group_2d eps P contconvs dt_cat d of
              Inl e \<Rightarrow> Inl e
            | Inr d' \<Rightarrow> Inr (d', (nx_bins P * ny_bins P) mod 2 ^ 64, 3))
         else (case group_nd E of
                 Inl e \<Rightarrow> Inl e
               | Inr d' \<Rightarrow> Inr (d', nd_max_bins P, 0)))"

text \<open>
  The end of \<open>aggregate\<close>, from \<open>aggregate_exemplars\<close> on: the outputs are assigned,
  then the last progress report is made.
\<close>

definition finish :: "env \<Rightarrow> bool \<Rightarrow> int list \<Rightarrow> outputs \<Rightarrow> (error + unit) \<times> outputs" where
  "finish E was_sampled d outs =
     (case aggregate_exemplars was_sampled d of
        (exemplar_indices, d_counts, d_members) \<Rightarrow>
          (let outs' = \<lparr>dt_exemplars_in =
                          Some \<lparr>exemplar_rows = exemplar_indices, members_count = d_counts\<rparr>,
                        dt_members_in = Some d_members\<rparr>
           in case progress_sink E 1 1 of
                Some x \<Rightarrow> (Inl (SinkError x), outs')
              | None \<Rightarrow> (Inr (), outs')))"

text \<open>
  \<open>aggregate\<close>, with the output references of the caller as state: the result is the
  exception or the normal return, and the references afterwards; \<open>None\<close> when the
  sampling loop is still running at the end of \<open>rand_results\<close>.
\<close>

definition aggregate ::
  "real \<Rightarrow> params \<Rightarrow> env \<Rightarrow> datatable \<Rightarrow> outputs \<Rightarrow> ((error + unit) \<times> outputs) option"
where
  "aggregate eps P E dt outs =
     (case progress_sink E 0 0 of
        Some x \<Rightarrow> Some (Inl (SinkError x), outs)
      | None \<Rightarrow>
          if nrows dt \<ge> min_rows P then
            (case dispatch eps P E dt of
               Inl e \<Rightarrow> Some (Inl e, outs)
             | Inr (d, max_bins, n_na_bins) \<Rightarrow>
                 (case sample_exemplars max_bins n_na_bins (rand_results E) d of
                    None \<Rightarrow> None
                  | Some (d', was_sampled) \<Rightarrow> Some (finish E was_sampled d' outs)))
          else Some (finish E False (group_0d_table dt (fresh_members E)) outs))"

text \<open>
  Well-formed inputs: every column has \<open>nrows\<close> values, a table without columns has
  no rows, a table has fewer than \<open>2\<^sup>3\<^sup>1\<close> rows (row numbers and group offsets are
  \<open>int32_t\<close>) and the parameters are \<open>size_t\<close> values; the members column is allocated
  with \<open>nrows\<close> entries, and \<open>group_nd\<close> leaves a members column of that length.
\<close>

definition col_length :: "column \<Rightarrow> nat" where
  "col_length c = (case c of NumCol t vs \<Rightarrow> length vs | CatCol t ss \<Rightarrow> length ss)"

definition well_formed :: "params \<Rightarrow> env \<Rightarrow> datatable \<Rightarrow> bool" where
  "well_formed P E dt \<longleftrightarrow>
     nrows dt < 2147483648 \<and>
     (\<forall>c\<in>set (columns dt). col_length c = nrows dt) \<and>
     (columns dt = [] \<longrightarrow> nrows dt = 0) \<and>
     min_rows P < 2 ^ 64 \<and> n_bins P < 2 ^ 64 \<and> nx_bins P < 2 ^ 64 \<and> ny_bins P < 2 ^ 64 \<and>
     nd_max_bins P < 2 ^ 64 \<and> max_dimensions P < 2 ^ 64 \<and>
     length (fresh_members E) = nrows dt \<and>
     (case nd_outcome E of Inl x \<Rightarrow> True | Inr d \<Rightarrow> length d = nrows dt)"

text \<open>The row index of the sort of the table by its first column.\<close>

definition first_column_order :: "datatable \<Rightarrow> nat list" where
  "first_column_order dt =
     (case columns dt of
        [] \<Rightarrow> []
      | NumCol t vs # cs \<Rightarrow> sort_na_last vs
      | CatCol t ss # cs \<Rightarrow> sort_na_last ss)"

section \<open>The distance kernel: symmetry, zero, early exit\<close>

lemma distance_loop_sym:
  "distance_loop e1 e2 delta ee is acc n = distance_loop e2 e1 delta ee is acc n"
proof (induction "is" arbitrary: acc n)
  case Nil show ?case by simp
next
  case (Cons i "is")
  show ?case
  proof (cases "e1 ! i")
    case None
    then show ?thesis by (cases "e2 ! i") (simp_all add: Cons.IH)
  next
    case (Some a)
    show ?thesis
    proof (cases "e2 ! i")
      case None
      with Some show ?thesis by (simp add: Cons.IH)
    next
      case (Some b)
      have sq: "(b - a) * (b - a) = (a - b) * (a - b)" by algebra
      from \<open>e1 ! i = Some a\<close> Some show ?thesis
        by (simp add: Cons.IH sq Let_def)
    qed
  qed
qed

lemma distance_loop_self_zero:
  "distance_loop e e delta ee is 0 n = (if ee \<and> 0 > delta \<and> (\<exists>i\<in>set is. e ! i \<noteq> None) then Inl 0
     else Inr (0, n + length (filter (\<lambda>i. e ! i \<noteq> None) is)))"
proof (induction "is" arbitrary: n)
  case Nil show ?case by simp
next
  case (Cons i "is")
  show ?case by (cases "e ! i") (auto simp: Cons.IH Let_def)
qed

text \<open>
  Claim C8. For coordinate vectors \<open>x\<close>, \<open>y\<close> with an index below \<open>ndims\<close> at which
  both are non-missing, and every \<open>delta\<close>, with and without early exit:
  \<open>calculate_distance\<close> gives the same for \<open>(x, y)\<close> and \<open>(y, x)\<close>, and \<open>0\<close> for
  \<open>(x, x)\<close>.
\<close>

theorem calculate_distance_sym_zero:
  assumes "\<exists>i<ndims. x ! i \<noteq> None \<and> y ! i \<noteq> None"
  shows "calculate_distance x y ndims delta early_exit = calculate_distance y x ndims delta early_exit
       \<and> calculate_distance x x ndims delta early_exit = Some 0"
proof -
  from assms obtain i where i: "i < ndims" "x ! i \<noteq> None" by blast
  then have "i \<in> set (filter (\<lambda>i. x ! i \<noteq> None) [0..<ndims])" by simp
  then have "length (filter (\<lambda>i. x ! i \<noteq> None) [0..<ndims]) \<noteq> 0" 
    by (metis length_0_conv empty_iff list.set(1))
  moreover have "\<exists>i\<in>set [0..<ndims]. x ! i \<noteq> None" using i by auto
  ultimately have "calculate_distance x x ndims delta early_exit = Some 0"
    by (simp add: calculate_distance_def distance_loop_self_zero)
  then show ?thesis
    by (simp add: calculate_distance_def distance_loop_sym [of x y])
qed

lemma distance_loop_full:
  "0 \<le> acc \<Longrightarrow> \<exists>s' n'. distance_loop e1 e2 delta False is acc n = Inr (s', n')
       \<and> acc \<le> s' \<and> n \<le> n' \<and> n' \<le> n + length is"
proof (induction "is" arbitrary: acc n)
  case Nil show ?case by simp
next
  case (Cons i "is")
  show ?case
  proof (cases "\<exists>a b. e1 ! i = Some a \<and> e2 ! i = Some b")
    case False
    then have "distance_loop e1 e2 delta False (i # is) acc n = distance_loop e1 e2 delta False is acc n"
      by (cases "e1 ! i"; cases "e2 ! i") simp_all
    with Cons.IH [OF Cons.prems, of n] show ?thesis by auto
  next
    case True
    then obtain a b where ab: "e1 ! i = Some a" "e2 ! i = Some b" by blast
    let ?acc = "acc + (a - b) * (a - b)"
    have sq: "0 \<le> (a - b) * (a - b)" by simp
    have nn: "0 \<le> ?acc" using Cons.prems sq by linarith
    have step: "distance_loop e1 e2 delta False (i # is) acc n = distance_loop e1 e2 delta False is ?acc (n + 1)"
      using ab by (simp add: Let_def)
    from Cons.IH [OF nn, of "n + 1"] obtain s' n' where
      r: "distance_loop e1 e2 delta False is ?acc (n + 1) = Inr (s', n')"
         "?acc \<le> s'" "n + 1 \<le> n'" "n' \<le> n + 1 + length is" by blast
    have "acc \<le> s'" using r(2) sq by linarith
    with r step show ?thesis by auto
  qed
qed

lemma distance_loop_early:
  "0 \<le> acc \<Longrightarrow> distance_loop e1 e2 delta True is acc n = Inl s \<Longrightarrow>
     delta < s \<and> (\<exists>s' n'. distance_loop e1 e2 delta False is acc n = Inr (s', n')
        \<and> s \<le> s' \<and> 0 < n' \<and> n' \<le> n + length is)"
proof (induction "is" arbitrary: acc n)
  case Nil then show ?case by simp
next
  case (Cons i "is")
  show ?case
  proof (cases "\<exists>a b. e1 ! i = Some a \<and> e2 ! i = Some b")
    case False
    then have "\<And>ee. distance_loop e1 e2 delta ee (i # is) acc n = distance_loop e1 e2 delta ee is acc n"
      by (cases "e1 ! i"; cases "e2 ! i") simp_all
    with Cons.IH [OF Cons.prems(1), of n] Cons.prems(2) show ?thesis by auto
  next
    case True
    then obtain a b where ab: "e1 ! i = Some a" "e2 ! i = Some b" by blast
    let ?acc = "acc + (a - b) * (a - b)"
    have sq: "0 \<le> (a - b) * (a - b)" by simp
    have nn: "0 \<le> ?acc" using Cons.prems sq by linarith
    have stepF: "distance_loop e1 e2 delta False (i # is) acc n = distance_loop e1 e2 delta False is ?acc (n + 1)"
      using ab by (simp add: Let_def)
    from distance_loop_full [OF nn, of e1 e2 delta "is" "n + 1"] obtain s' n' where
      r: "distance_loop e1 e2 delta False is ?acc (n + 1) = Inr (s', n')"
         "?acc \<le> s'" "n + 1 \<le> n'" "n' \<le> n + 1 + length is" by blast
    show ?thesis
    proof (cases "?acc > delta")
      case True
      then have "distance_loop e1 e2 delta True (i # is) acc n = Inl ?acc"
        using ab by (simp add: Let_def)
      with Cons.prems(2) have "s = ?acc" by simp
      with True r stepF show ?thesis by auto
    next
      case False
      then have "distance_loop e1 e2 delta True (i # is) acc n = distance_loop e1 e2 delta True is ?acc (n + 1)"
        using ab by (simp add: Let_def)
      with Cons.prems(2) have "distance_loop e1 e2 delta True is ?acc (n + 1) = Inl s" by simp
      from Cons.IH [OF nn this] stepF show ?thesis by auto
    qed
  qed
qed

lemma distance_loop_no_exit:
  "distance_loop e1 e2 delta True is acc n = Inr r \<Longrightarrow> distance_loop e1 e2 delta False is acc n = Inr r"
proof (induction "is" arbitrary: acc n)
  case Nil then show ?case by simp
next
  case (Cons i "is")
  show ?case
  proof (cases "\<exists>a b. e1 ! i = Some a \<and> e2 ! i = Some b")
    case False
    then have "\<And>ee. distance_loop e1 e2 delta ee (i # is) acc n = distance_loop e1 e2 delta ee is acc n"
      by (cases "e1 ! i"; cases "e2 ! i") simp_all
    with Cons show ?thesis by simp
  next
    case True
    then obtain a b where ab: "e1 ! i = Some a" "e2 ! i = Some b" by blast
    with Cons show ?thesis by (simp add: Let_def split: if_splits)
  qed
qed

text \<open>
  Claim C10. For coordinate vectors with a mutually non-missing component and
  \<open>delta \<ge> 0\<close>, the result with early exit is below \<open>delta\<close> if and only if the
  result without early exit is: the membership decision \<open>distance < delta\<close> is the same.
\<close>

theorem early_exit_same_decision:
  assumes "\<exists>i<ndims. x ! i \<noteq> None \<and> y ! i \<noteq> None" and "0 \<le> delta"
  shows "tval_less (calculate_distance x y ndims delta True) delta
       \<longleftrightarrow> tval_less (calculate_distance x y ndims delta False) delta"
proof (cases "distance_loop x y delta True [0..<ndims] 0 0")
  case (Inl s)
  from distance_loop_early [OF _ Inl] obtain s' n' where
    r: "delta < s" "distance_loop x y delta False [0..<ndims] 0 0 = Inr (s', n')"
       "s \<le> s'" "0 < n'" "n' \<le> ndims" by auto
  have "0 \<le> s'" using r(1,3) assms(2) by linarith
  have "real n' \<le> real ndims" using r(5) by simp
  then have "s' * real n' \<le> s' * real ndims" using \<open>0 \<le> s'\<close> by (rule mult_left_mono)
  then have "s' \<le> s' * real ndims / real n'" using r(4) by (simp add: pos_le_divide_eq)
  then have "\<not> s' * real ndims / real n' < delta" using r(1,3) by linarith
  with Inl r show ?thesis by (simp add: calculate_distance_def tval_less_def)
next
  case (Inr r)
  from distance_loop_no_exit [OF Inr] Inr show ?thesis
    by (simp add: calculate_distance_def)
qed

theorem calculate_distance_sym_zero_witness:
  "(\<exists>i<3. [Some 1, None, Some (3::real)] ! i \<noteq> None \<and> [Some 2, Some (5::real), None] ! i \<noteq> None)
   \<and> calculate_distance [Some 1, None, Some 3] [Some 2, Some 5, None] 3 (1 / 2) True
     = calculate_distance [Some 2, Some 5, None] [Some 1, None, Some 3] 3 (1 / 2) True
   \<and> calculate_distance [Some 1, None, Some 3] [Some 1, None, Some 3] 3 (1 / 2) True = Some 0"
proof -
  have h: "\<exists>i<3. [Some 1, None, Some (3::real)] ! i \<noteq> None \<and> [Some 2, Some (5::real), None] ! i \<noteq> None"
    by (rule exI [of _ 0]) simp
  from calculate_distance_sym_zero [OF h, of "1 / 2" True] h show ?thesis by blast
qed

theorem early_exit_same_decision_witness:
  "(\<exists>i<3. [Some 1, None, Some (3::real)] ! i \<noteq> None \<and> [Some 2, Some (5::real), None] ! i \<noteq> None)
   \<and> (0::real) \<le> 1 / 2
   \<and> (tval_less (calculate_distance [Some 1, None, Some 3] [Some 2, Some 5, None] 3 (1 / 2) True) (1 / 2)
     \<longleftrightarrow> tval_less (calculate_distance [Some 1, None, Some 3] [Some 2, Some 5, None] 3 (1 / 2) False) (1 / 2))"
proof -
  have h: "\<exists>i<3. [Some 1, None, Some (3::real)] ! i \<noteq> None \<and> [Some 2, Some (5::real), None] ! i \<noteq> None"
    by (rule exI [of _ 0]) simp
  have d: "(0::real) \<le> 1 / 2" by simp
  from early_exit_same_decision [OF h d] h d show ?thesis by blast
qed

section \<open>The modular traversal, the normalizer, the missing-value codes\<close>

lemma modular_step_inj:
  fixes c n k1 k2 e0 :: nat
  assumes cop: "coprime c n" and le: "k1 \<le> k2" and k2: "k2 < n"
    and eq: "(k1 * c + e0) mod n = (k2 * c + e0) mod n"
  shows "k1 = k2"
proof -
  have "k1 * c + e0 \<le> k2 * c + e0" by (intro add_le_mono1 mult_le_mono1 le)
  then have "n dvd (k2 * c + e0) - (k1 * c + e0)"
    using eq [symmetric] by (rule mod_eq_dvd_iff_nat [THEN iffD1])
  moreover have "(k2 * c + e0) - (k1 * c + e0) = (k2 - k1) * c"
    by (simp add: diff_mult_distrib)
  ultimately have "n dvd (k2 - k1) * c" by simp
  with cop have "n dvd k2 - k1"
    by (simp add: coprime_dvd_mult_left_iff coprime_commute)
  moreover have "k2 - k1 < n" using k2 by simp
  ultimately have "k2 - k1 = 0" by (meson dvd_imp_le not_less zero_less_iff_neq_zero)
  with le show ?thesis by simp
qed

lemma modular_order_distinct:
  assumes "coprime c n"
  shows "distinct (modular_order n c e0)"
proof -
  have "inj_on (\<lambda>k. (k * c + e0) mod n) {0..<n}"
  proof (rule inj_onI)
    fix x y assume xy: "x \<in> {0..<n}" "y \<in> {0..<n}"
      and eq: "(x * c + e0) mod n = (y * c + e0) mod n"
    show "x = y"
    proof (cases "x \<le> y")
      case True
      with modular_step_inj [OF assms True _ eq] xy show ?thesis by simp
    next
      case False
      then have "y \<le> x" by simp
      with modular_step_inj [OF assms this _ eq [symmetric]] xy show ?thesis by simp
    qed
  qed
  then show ?thesis by (simp add: modular_order_def distinct_map)
qed

lemma modular_order_set:
  assumes "coprime c n" "1 \<le> n"
  shows "set (modular_order n c e0) = {0..<n}"
proof (rule card_subset_eq)
  show "finite {0..<n}" by simp
  show "set (modular_order n c e0) \<subseteq> {0..<n}"
    using assms(2) by (auto simp: modular_order_def)
  have "card (set (modular_order n c e0)) = length (modular_order n c e0)"
    using modular_order_distinct [OF assms(1)] by (rule distinct_card)
  then show "card (set (modular_order n c e0)) = card {0..<n}"
    by (simp add: modular_order_def)
qed

lemma probe_order_eq:
  assumes "(n - 1) * c + e0 < 2 ^ 64"
  shows "probe_order n c e0 = modular_order n c e0"
proof -
  have "probe_index n c e0 k = (k * c + e0) mod n" if "k < n" for k
  proof -
    have "k \<le> n - 1" using that by simp
    then have "k * c \<le> (n - 1) * c" by (rule mult_le_mono1)
    with assms have "k * c + e0 < 2 ^ 64" by linarith
    then show ?thesis by (simp add: probe_index_def)
  qed
  then show ?thesis by (simp add: probe_order_def modular_order_def)
qed

text \<open>
  Claim C7. For \<open>n \<ge> 1\<close>, a stride \<open>c\<close> coprime to \<open>n\<close> and an offset \<open>e\<^sub>0 < n\<close>, the
  sequence \<open>(k \<cdot> c + e\<^sub>0) mod n\<close>, \<open>k = 0, \<dots>, n - 1\<close>, has no repetition and visits
  every element of \<open>[0, n)\<close>; the traversal of \<open>group_nd\<close> is this sequence, hence a
  permutation of the exemplar indices, whenever its \<open>size_t\<close> arithmetic does not
  wrap (\<open>(n - 1) \<cdot> c + e\<^sub>0 < 2\<^sup>6\<^sup>4\<close>, as for every \<open>c < n \<le> 2\<^sup>3\<^sup>2\<close>).
\<close>

theorem probe_order_permutation:
  assumes "1 \<le> n" and "coprime c n" and "e0 < n"
  shows "distinct (modular_order n c e0) \<and> set (modular_order n c e0) = {0..<n}
       \<and> ((n - 1) * c + e0 < 2 ^ 64 \<longrightarrow>
            distinct (probe_order n c e0) \<and> set (probe_order n c e0) = {0..<n})"
  using modular_order_distinct [OF assms(2), of e0] modular_order_set [OF assms(2,1), of e0]
  by (simp add: probe_order_eq)

theorem probe_order_permutation_witness:
  "(1::nat) \<le> 5 \<and> coprime (3::nat) 5 \<and> (2::nat) < 5
   \<and> modular_order 5 3 2 = [2, 0, 3, 1, 4] \<and> probe_order 5 3 2 = [2, 0, 3, 1, 4]
   \<and> distinct (probe_order 5 3 2) \<and> set (probe_order 5 3 2) = {0..<5}"
proof -
  have c: "coprime (3::nat) 5" by (simp add: coprime_iff_gcd_eq_1 gcd_nat.simps)
  have u: "[0..<5] = [0, 1, 2, 3, 4]" by (simp add: upt_rec)
  have e: "modular_order 5 3 2 = [2, 0, 3, 1, 4]" by (simp add: modular_order_def u)
  have p: "probe_order 5 3 2 = [2, 0, 3, 1, 4]" by (simp add: probe_order_def probe_index_def u)
  have b: "(5 - 1) * 3 + 2 < (2::nat) ^ 64" by simp
  from probe_order_permutation [of 5 3 2] c b e p show ?thesis by simp
qed








lemma upt2: "[0..<2] = [0, Suc 0]"
  by (simp add: upt_rec)

lemma upt3: "[0..<3] = [0, Suc 0, Suc (Suc 0)]"
  by (simp add: upt_rec)

text \<open>
  Claim C3, at a table of three rows \<open>(1, NA)\<close>, \<open>(NA, 1)\<close>, \<open>(NA, NA)\<close>: with
  \<open>na_case = ISNA(value0) + 2 * ISNA(value1)\<close> the members entries are \<open>- 2\<close>, \<open>- 1\<close> and
  \<open>- 3\<close>. For the row whose first (x) value is present and whose second (y) value is
  missing the comment of \<open>group_2d\<close> and the claim have \<open>- 1\<close>, and \<open>- 2\<close> for the row
  whose x is missing and whose y is present.
\<close>

theorem group_2d_continuous_value_na:
  "group_2d_continuous eps nx ny \<lparr>cc_min = 1, cc_max = 1, cc_vals = [Some 1, None, None]\<rparr>
      \<lparr>cc_min = 1, cc_max = 1, cc_vals = [None, Some 1, None]\<rparr> = [- 2, - 1, - 3]"
  by (simp add: group_2d_continuous_def get_nrows_def ISNA_def b2i_def Let_def upt3)

section \<open>Groups, offsets and assignments\<close>

subsection \<open>Groups\<close>

lemma group_keys_props:
  "distinct (group_keys ks)" "sorted (group_keys ks)" "set (group_keys ks) = set ks"
  by (simp_all add: group_keys_def)

lemma length_group_rows: "length (group_rows ks) = length (group_keys ks)"
  by (simp add: group_rows_def)

lemma length_group_keys_le: "length (group_keys ks) \<le> length ks"
proof -
  have "length (group_keys ks) = card (set ks)"
    using distinct_card [OF group_keys_props(1), of ks] by (simp add: group_keys_props(3))
  then show ?thesis by (simp add: card_length)
qed

lemma group_rows_nth:
  "g < length (group_keys ks) \<Longrightarrow>
     group_rows ks ! g = filter (\<lambda>i. ks ! i = group_keys ks ! g) [0..<length ks]"
  by (simp add: group_rows_def)

lemma in_group_rows:
  "g < length (group_keys ks) \<Longrightarrow>
     r \<in> set (group_rows ks ! g) \<longleftrightarrow> r < length ks \<and> ks ! r = group_keys ks ! g"
  by (auto simp: group_rows_nth)

lemma group_rows_nonempty:
  assumes "g < length (group_keys ks)"
  shows "group_rows ks ! g \<noteq> []"
proof -
  have "group_keys ks ! g \<in> set ks"
    using assms nth_mem [of g "group_keys ks"] by (simp add: group_keys_props(3))
  then obtain r where "r < length ks" "ks ! r = group_keys ks ! g"
    by (auto simp: in_set_conv_nth)
  then have "r \<in> set (group_rows ks ! g)" using assms by (simp add: in_group_rows)
  then show ?thesis by auto
qed

lemma row_has_group:
  assumes "r < length ks"
  shows "\<exists>g<length (group_keys ks). r \<in> set (group_rows ks ! g)"
proof -
  have "ks ! r \<in> set (group_keys ks)" using assms by (simp add: group_keys_props(3))
  then obtain g where "g < length (group_keys ks)" "group_keys ks ! g = ks ! r"
    by (auto simp: in_set_conv_nth)
  with assms show ?thesis by (auto simp: in_group_rows)
qed

lemma group_unique:
  assumes "g < length (group_keys ks)" "g' < length (group_keys ks)"
    and "r \<in> set (group_rows ks ! g)" "r \<in> set (group_rows ks ! g')"
  shows "g = g'"
proof -
  have "group_keys ks ! g = group_keys ks ! g'"
    using assms by (simp add: in_group_rows)
  with assms(1,2) show ?thesis
    using group_keys_props(1) [of ks] by (simp add: nth_eq_iff_index_eq)
qed

subsection \<open>Offsets\<close>

lemma length_cumsum: "length (cumsum p ns) = length ns + 1"
  by (induction ns arbitrary: p) simp_all

lemma cumsum_nth: "g \<le> length ns \<Longrightarrow> cumsum p ns ! g = p + sum_list (take g ns)"
proof (induction ns arbitrary: p g)
  case Nil then show ?case by simp
next
  case (Cons n ns)
  show ?case
  proof (cases g)
    case 0 then show ?thesis by simp
  next
    case (Suc g')
    with Cons.prems have "g' \<le> length ns" by simp
    from Cons.IH [OF this, of "p + n"] Suc show ?thesis by simp
  qed
qed

lemma ngroups_group_offsets: "ngroups (group_offsets ks) = length (group_keys ks)"
  by (simp add: ngroups_def group_offsets_def length_cumsum length_group_rows)

lemma concat_slice:
  assumes "g < length gs"
  shows "map ((!) (concat gs)) [sum_list (take g (map length gs))..<sum_list (take (Suc g) (map length gs))]
         = gs ! g"
proof -
  let ?A = "concat (take g gs)" and ?B = "gs ! g" and ?C = "concat (drop (Suc g) gs)"
  have split: "concat gs = ?A @ ?B @ ?C"
    using id_take_nth_drop [OF assms] by (metis concat.simps(2) concat_append)
  have a: "sum_list (take g (map length gs)) = length ?A"
    by (simp add: length_concat take_map)
  have "take (Suc g) (map length gs) = take g (map length gs) @ [length ?B]"
    using assms by (simp add: take_Suc_conv_app_nth)
  then have b: "sum_list (take (Suc g) (map length gs)) = length ?A + length ?B"
    using a by simp
  have "map ((!) (?A @ ?B @ ?C)) [length ?A..<length ?A + length ?B] = ?B"
    by (rule nth_equalityI) (simp_all add: nth_append)
  with split a b show ?thesis by simp
qed

lemma group_offsets_nth:
  "g \<le> length (group_keys ks) \<Longrightarrow>
     group_offsets ks ! g = sum_list (take g (map length (group_rows ks)))"
  by (simp add: group_offsets_def cumsum_nth length_group_rows)

lemma group_slice:
  assumes "g < length (group_keys ks)"
  shows "map ((!) (group_ri ks)) [group_offsets ks ! g..<group_offsets ks ! (g + 1)] = group_rows ks ! g"
  using assms concat_slice [of g "group_rows ks"]
  by (simp add: group_offsets_nth group_ri_def length_group_rows)

lemma group_offsets_diff:
  assumes "g < length (group_keys ks)"
  shows "group_offsets ks ! (g + 1) = group_offsets ks ! g + length (group_rows ks ! g)"
  using assms by (simp add: group_offsets_nth take_Suc_conv_app_nth length_group_rows)

lemma group_offsets_Suc:
  "g < length (group_keys ks) \<Longrightarrow>
     group_offsets ks ! Suc g = group_offsets ks ! g + length (group_rows ks ! g)"
  using group_offsets_diff [of g ks] by simp

lemma group_slice_Suc:
  "g < length (group_keys ks) \<Longrightarrow>
     map ((!) (group_ri ks)) [group_offsets ks ! g..<group_offsets ks ! Suc g] = group_rows ks ! g"
  using group_slice [of g ks] by simp

lemma length_group_le:
  assumes "g < length (group_keys ks)"
  shows "length (group_rows ks ! g) \<le> length ks"
proof -
  have "length (filter (\<lambda>i. ks ! i = group_keys ks ! g) [0..<length ks]) \<le> length [0..<length ks]"
    by (rule length_filter_le)
  with assms show ?thesis by (simp add: group_rows_nth)
qed

lemma group_first_row:
  assumes "g < length (group_keys ks)"
  shows "group_ri ks ! (group_offsets ks ! g) \<in> set (group_rows ks ! g)"
proof -
  let ?a = "group_offsets ks ! g" and ?G = "group_rows ks ! g"
  have ne: "0 < length ?G" using group_rows_nonempty [OF assms] by simp
  have "?G ! 0 = map ((!) (group_ri ks)) [?a..<group_offsets ks ! (g + 1)] ! 0"
    by (simp only: group_slice [OF assms])
  also have "\<dots> = group_ri ks ! ?a"
    unfolding group_offsets_diff [OF assms] using ne by simp
  finally have "group_ri ks ! ?a = ?G ! 0" by simp
  with ne show ?thesis by (metis nth_mem)
qed

subsection \<open>Assignments\<close>

lemma length_fold_update: "length (fold (\<lambda>j d. d[f j := v]) js d) = length d"
  by (induction js arbitrary: d) simp_all

lemma nth_fold_update:
  "r < length d \<Longrightarrow>
     fold (\<lambda>j d. d[f j := v]) js d ! r = (if r \<in> f ` set js then v else d ! r)"
proof (induction js arbitrary: d)
  case Nil then show ?case by simp
next
  case (Cons j js)
  have "r < length (d[f j := v])" using Cons.prems by simp
  from Cons.IH [OF this] Cons.prems show ?case
    by (auto simp: nth_list_update)
qed

lemma length_assign_rows: "length (assign_rows ri a b v d) = length d"
  by (simp add: assign_rows_def length_fold_update)

lemma nth_assign_group:
  assumes "g < length (group_keys ks)" "r < length d"
  shows "assign_rows (group_ri ks) (group_offsets ks ! g) (group_offsets ks ! (g + 1)) v d ! r
         = (if r \<in> set (group_rows ks ! g) then v else d ! r)"
proof -
  have "(!) (group_ri ks) ` set [group_offsets ks ! g..<group_offsets ks ! (g + 1)]
        = set (group_rows ks ! g)"
    using group_slice [OF assms(1)] by (metis set_map)
  then show ?thesis
    using assms(2) by (simp add: assign_rows_def nth_fold_update)
qed

lemma nth_assign_group_Suc:
  assumes "g < length (group_keys ks)" "r < length d"
  shows "assign_rows (group_ri ks) (group_offsets ks ! g) (group_offsets ks ! Suc g) v d ! r
         = (if r \<in> set (group_rows ks ! g) then v else d ! r)"
  using nth_assign_group [OF assms] by simp

section \<open>The parts of the result of the finalizer\<close>

lemma fold_steps_length:
  assumes "\<And>i d. i \<in> set is \<Longrightarrow> length (step i d) = length d"
  shows "length (fold step is d) = length d"
  using assms by (induction "is" arbitrary: d) simp_all

lemma fold_steps_other:
  assumes len: "\<And>i d. i \<in> set is \<Longrightarrow> length (step i d) = length d"
    and nth: "\<And>i d r. i \<in> set is \<Longrightarrow> r < length d \<Longrightarrow>
                step i d ! r = (if r \<in> S i then v i else d ! r)"
    and r: "r < length d" and out: "\<forall>i\<in>set is. r \<notin> S i"
  shows "fold step is d ! r = d ! r"
  using assms
proof (induction "is" arbitrary: d)
  case Nil then show ?case by simp
next
  case (Cons a "is")
  have r': "r < length (step a d)" using Cons.prems(1,3) by simp
  have "fold step is (step a d) ! r = step a d ! r"
    using Cons.prems by (intro Cons.IH r') simp_all
  also have "\<dots> = d ! r" using Cons.prems by simp
  finally show ?case by simp
qed

lemma fold_steps_hit:
  assumes len: "\<And>i d. i \<in> set is \<Longrightarrow> length (step i d) = length d"
    and nth: "\<And>i d r. i \<in> set is \<Longrightarrow> r < length d \<Longrightarrow>
                step i d ! r = (if r \<in> S i then v i else d ! r)"
    and r: "r < length d" and i: "i \<in> set is" "r \<in> S i"
    and uniq: "\<forall>j\<in>set is. j \<noteq> i \<longrightarrow> r \<notin> S j"
  shows "fold step is d ! r = v i"
  using assms
proof (induction "is" arbitrary: d)
  case Nil then show ?case by simp
next
  case (Cons a "is")
  have r': "r < length (step a d)" using Cons.prems(1,3) by simp
  show ?case
  proof (cases "i \<in> set is")
    case True
    have "fold step is (step a d) ! r = v i"
      using Cons.prems True by (intro Cons.IH r') simp_all
    then show ?thesis by simp
  next
    case False
    with Cons.prems(4) have a: "a = i" by simp
    have "\<forall>j\<in>set is. r \<notin> S j" using Cons.prems(6) False by auto
    then have "fold step is (step a d) ! r = step a d ! r"
      using Cons.prems(1,2) by (intro fold_steps_other [where S = S and v = v] r') simp_all
    also have "\<dots> = v i" using Cons.prems(2,3,5) a by simp
    finally show ?thesis by simp
  qed
qed

lemma to_i32_id: "0 \<le> z \<Longrightarrow> z < 2147483648 \<Longrightarrow> to_i32 z = z"
  by (simp add: to_i32_def)

lemma aggregate_exemplars_parts:
  fixes d :: "int list"
  assumes N: "length d < 2147483648"
    and res: "aggregate_exemplars ws d = (ex, counts, d2)"
  defines "w \<equiv> (if ws then 1 else 0 :: nat)"
  shows "length d2 = length d"
    and "length counts = length (group_keys d) - w"
    and "length ex = length (group_keys d) - w"
    and "\<And>k. k < length (group_keys d) - w \<Longrightarrow> counts ! k = int (length (group_rows d ! (k + w)))"
    and "\<And>g r. w \<le> g \<Longrightarrow> g < length (group_keys d) \<Longrightarrow> r \<in> set (group_rows d ! g)
           \<Longrightarrow> d2 ! r = int (g - w)"
    and "\<And>r. r < length d \<Longrightarrow> \<forall>g. w \<le> g \<and> g < length (group_keys d) \<longrightarrow> r \<notin> set (group_rows d ! g)
           \<Longrightarrow> d2 ! r = d ! r"
proof -
  let ?ng = "length (group_keys d)"
  let ?ri = "group_ri d" and ?offs = "group_offsets d"
  define cs where "cs = map (\<lambda>i. to_i32 (int (?offs ! (i + 1)) - int (?offs ! i))) [w..<?ng]"
  define step where "step = (\<lambda>i d'. fold (\<lambda>j d''. d''[?ri ! (?offs ! i + j) := to_i32 (int (i - w))])
                          [0..<nat (cs ! (i - w))] d')"
  have "aggregate_exemplars ws d
        = (map (\<lambda>i. to_i32 (int (?ri ! (?offs ! i)))) [w..<?ng], cs, fold step [w..<?ng] d)"
    unfolding aggregate_exemplars_def Let_def ngroups_group_offsets cs_def step_def w_def
    by (rule refl)
  with res have ex: "ex = map (\<lambda>i. to_i32 (int (?ri ! (?offs ! i)))) [w..<?ng]"
    and counts: "counts = cs" and d2: "d2 = fold step [w..<?ng] d"
    by simp_all
  have cnt: "cs ! (i - w) = int (length (group_rows d ! i))" if "i \<in> set [w..<?ng]" for i
  proof -
    from that have i: "w \<le> i" "i < ?ng" by simp_all
    then have "i - w < length [w..<?ng]" "[w..<?ng] ! (i - w) = i" by simp_all
    then have "cs ! (i - w) = to_i32 (int (?offs ! (i + 1)) - int (?offs ! i))"
      unfolding cs_def by (simp only: nth_map)
    also have "\<dots> = to_i32 (int (length (group_rows d ! i)))"
      by (simp add: group_offsets_Suc [OF i(2)])
    also have "\<dots> = int (length (group_rows d ! i))"
      using length_group_le [OF i(2)] N by (intro to_i32_id) simp_all
    finally show ?thesis .
  qed
  have step_len: "length (step i d') = length d'" for i d'
    by (simp add: step_def length_fold_update)
  have step_nth: "step i d' ! r = (if r \<in> set (group_rows d ! i) then int (i - w) else d' ! r)"
    if "i \<in> set [w..<?ng]" "r < length d'" for i d' r
  proof -
    from that have i: "w \<le> i" "i < ?ng" by simp_all
    let ?len = "length (group_rows d ! i)"
    have "[?offs ! i..<?len + ?offs ! i] = map (\<lambda>j. j + ?offs ! i) [0..<?len]"
      by (simp only: map_add_upt)
    then have "map ((!) ?ri) [?offs ! i..<?offs ! i + ?len] = map (\<lambda>j. ?ri ! (?offs ! i + j)) [0..<?len]"
      by (simp add: add.commute)
    then have "map (\<lambda>j. ?ri ! (?offs ! i + j)) [0..<?len] = group_rows d ! i"
      using group_slice_Suc [OF i(2)] by (simp add: group_offsets_Suc [OF i(2)])
    then have "set (map (\<lambda>j. ?ri ! (?offs ! i + j)) [0..<?len]) = set (group_rows d ! i)"
      by (rule arg_cong)
    then have img: "(\<lambda>j. ?ri ! (?offs ! i + j)) ` set [0..<?len] = set (group_rows d ! i)"
      by (simp only: set_map)
    then have img': "(\<lambda>j. ?ri ! (?offs ! i + j)) ` {0..<?len} = set (group_rows d ! i)"
      by simp
    have v: "to_i32 (int (i - w)) = int (i - w)"
      using i(2) length_group_keys_le [of d] N by (intro to_i32_id) simp_all
    show ?thesis
      using that(2) by (simp add: step_def cnt [OF that(1)] nth_fold_update img' v)
  qed
  show "length d2 = length d"
    unfolding d2 by (rule fold_steps_length) (rule step_len)
  show "length counts = ?ng - w" by (simp add: counts cs_def)
  show "length ex = ?ng - w" by (simp add: ex)
  show "counts ! k = int (length (group_rows d ! (k + w)))" if "k < ?ng - w" for k
    using cnt [of "k + w"] that by (simp add: counts)
  show "d2 ! r = int (g - w)"
    if g: "w \<le> g" "g < ?ng" and r: "r \<in> set (group_rows d ! g)" for g r
  proof -
    have rN: "r < length d" using r g(2) by (simp add: in_group_rows)
    have "fold step [w..<?ng] d ! r = int (g - w)"
    proof (rule fold_steps_hit [where S = "\<lambda>i. set (group_rows d ! i)" and v = "\<lambda>i. int (i - w)"])
      show "\<forall>j\<in>set [w..<?ng]. j \<noteq> g \<longrightarrow> r \<notin> set (group_rows d ! j)"
        using group_unique [OF _ g(2) _ r] by auto
    qed (use g r rN step_len step_nth in simp_all)
    then show ?thesis by (simp add: d2)
  qed
  show "d2 ! r = d ! r"
    if "r < length d" "\<forall>g. w \<le> g \<and> g < ?ng \<longrightarrow> r \<notin> set (group_rows d ! g)" for r
  proof -
    have "fold step [w..<?ng] d ! r = d ! r"
      by (rule fold_steps_other [where S = "\<lambda>i. set (group_rows d ! i)" and v = "\<lambda>i. int (i - w)"])
         (use that step_len step_nth in simp_all)
    then show ?thesis by (simp add: d2)
  qed
qed

lemma finalizer_counts:
  fixes d :: "int list"
  assumes N: "length d < 2147483648"
    and res: "aggregate_exemplars ws d = (ex, counts, d2)"
    and na: "ws \<Longrightarrow> \<forall>r\<in>set (group_rows d ! 0). d ! r < 0"
    and k: "k < length counts"
  shows "counts ! k = int (length (filter (\<lambda>i. d2 ! i = int k) [0..<length d2]))"
proof -
  define w where "w = (if ws then 1 else 0 :: nat)"
  note parts = aggregate_exemplars_parts [OF N res, folded w_def]
  let ?ng = "length (group_keys d)"
  have kw: "k + w < ?ng" using k parts(2) by simp
  have eqv: "d2 ! r = int k \<longleftrightarrow> d ! r = group_keys d ! (k + w)" if r: "r < length d" for r
  proof -
    from row_has_group [OF r] obtain g where g: "g < ?ng" "r \<in> set (group_rows d ! g)" by blast
    then have key: "d ! r = group_keys d ! g" by (simp add: in_group_rows)
    have keys: "group_keys d ! g = group_keys d ! (k + w) \<longleftrightarrow> g = k + w"
      using g(1) kw group_keys_props(1) [of d] by (simp add: nth_eq_iff_index_eq)
    show ?thesis
    proof (cases "w \<le> g")
      case True
      from parts(5) [OF True g] have "d2 ! r = int (g - w)" .
      with True key keys show ?thesis by auto
    next
      case False
      then have ws: ws and g0: "g = 0" by (auto simp: w_def split: if_splits)
      have "\<forall>g'. w \<le> g' \<and> g' < ?ng \<longrightarrow> r \<notin> set (group_rows d ! g')"
        using group_unique [OF g(1) _ g(2)] False by blast
      from parts(6) [OF r this] have "d2 ! r = d ! r" .
      moreover have "d ! r < 0" using na [OF ws] g(2) g0 by simp
      moreover have "g \<noteq> k + w" using False by simp
      ultimately show ?thesis using key keys by simp
    qed
  qed
  have "filter (\<lambda>i. d2 ! i = int k) [0..<length d] = filter (\<lambda>i. d ! i = group_keys d ! (k + w)) [0..<length d]"
    by (rule filter_cong) (simp_all add: eqv)
  also have "\<dots> = group_rows d ! (k + w)" using kw by (simp add: group_rows_nth)
  finally show ?thesis using parts(4) [of k] k parts(1,2) by simp
qed

lemma finalizer_ids_in_range:
  fixes d :: "int list"
  assumes N: "length d < 2147483648"
    and res: "aggregate_exemplars False d = (ex, counts, d2)"
    and r: "r < length d"
  shows "0 \<le> d2 ! r \<and> d2 ! r < int (length counts)"
proof -
  note parts = aggregate_exemplars_parts [OF N res]
  from row_has_group [OF r] obtain g where g: "g < length (group_keys d)" "r \<in> set (group_rows d ! g)"
    by blast
  from parts(5) [of g r] g have "d2 ! r = int g" by simp
  with g(1) parts(2) show ?thesis by simp
qed


section \<open>The sampling loop\<close>

lemma select_groups_length:
  "select_groups n mb rs sel = Some sel' \<Longrightarrow> length sel \<le> mb \<Longrightarrow> length sel' = mb"
proof (induction rs arbitrary: sel)
  case Nil then show ?case by (simp split: if_splits)
next
  case (Cons r rs)
  show ?case
  proof (cases "length sel < mb")
    case False
    with Cons.prems show ?thesis by simp
  next
    case True
    show ?thesis
    proof (cases "r mod n \<in> set sel")
      case True
      with \<open>length sel < mb\<close> Cons.prems have "select_groups n mb rs sel = Some sel'" by simp
      from Cons.IH [OF this Cons.prems(2)] show ?thesis .
    next
      case False
      with \<open>length sel < mb\<close> Cons.prems have "select_groups n mb rs (sel @ [r mod n]) = Some sel'"
        by simp
      moreover have "length (sel @ [r mod n]) \<le> mb" using \<open>length sel < mb\<close> by simp
      ultimately show ?thesis by (rule Cons.IH)
    qed
  qed
qed

lemma select_groups_None:
  "select_groups n mb rs sel = None \<Longrightarrow> card (set sel \<union> (\<lambda>r. r mod n) ` set rs) < mb"
proof (induction rs arbitrary: sel)
  case Nil
  then have "length sel < mb" by (simp split: if_splits)
  moreover have "card (set sel) \<le> length sel" by (rule card_length)
  ultimately show ?case by simp
next
  case (Cons r rs)
  from Cons.prems have lt: "length sel < mb" by (simp split: if_splits)
  show ?case
  proof (cases "r mod n \<in> set sel")
    case True
    with lt Cons.prems have "select_groups n mb rs sel = None" by simp
    from Cons.IH [OF this] True show ?thesis by (simp add: insert_absorb)
  next
    case False
    with lt Cons.prems have "select_groups n mb rs (sel @ [r mod n]) = None" by simp
    from Cons.IH [OF this] show ?thesis by simp
  qed
qed

lemma marks_selection_init: "marks_selection d0 [] (replicate (length d0) NA_I4)"
  by (auto simp: marks_selection_def in_group_rows)

lemma selection_length_less:
  assumes "distinct sel" "\<forall>g\<in>set sel. g < n" "i < n" "i \<notin> set sel"
  shows "length sel < n"
proof -
  have "set sel \<subset> {..<n}" using assms(2,3,4) by auto
  then have "card (set sel) < card {..<n}" by (intro psubset_card_mono) simp_all
  with assms(1) show ?thesis by (simp add: distinct_card)
qed

lemma marks_selection_step:
  fixes d0 :: "int list"
  assumes inv: "marks_selection d0 sel d"
    and i: "i < length (group_keys d0)" "i \<notin> set sel"
  shows "marks_selection d0 (sel @ [i])
           (assign_rows (group_ri d0) (group_offsets d0 ! i) (group_offsets d0 ! (i + 1))
              (int (length sel)) d)"
proof -
  let ?ng = "length (group_keys d0)"
  let ?d' = "assign_rows (group_ri d0) (group_offsets d0 ! i) (group_offsets d0 ! (i + 1)) (int (length sel)) d"
  from inv have len: "length d = length d0" and dist: "distinct sel"
    and bound: "\<forall>g\<in>set sel. g < ?ng"
    and sel: "\<forall>j<length sel. \<forall>r\<in>set (group_rows d0 ! (sel ! j)). d ! r = int j"
    and rest: "\<forall>g<?ng. g \<notin> set sel \<longrightarrow> (\<forall>r\<in>set (group_rows d0 ! g). d ! r = NA_I4)"
    by (simp_all add: marks_selection_def)
  have nth: "?d' ! r = (if g = i then int (length sel) else d ! r)"
    if "g < ?ng" "r \<in> set (group_rows d0 ! g)" for g r
  proof -
    have r: "r < length d" using that len by (simp add: in_group_rows)
    have "r \<in> set (group_rows d0 ! i) \<longleftrightarrow> g = i"
      using group_unique [OF that(1) i(1) that(2)] that(2) by auto
    then show ?thesis by (simp add: nth_assign_group_Suc [OF i(1) r])
  qed
  have "\<forall>j<length (sel @ [i]). \<forall>r\<in>set (group_rows d0 ! ((sel @ [i]) ! j)). ?d' ! r = int j"
  proof (intro allI impI ballI)
    fix j r assume j: "j < length (sel @ [i])" and r: "r \<in> set (group_rows d0 ! ((sel @ [i]) ! j))"
    show "?d' ! r = int j"
    proof (cases "j < length sel")
      case True
      then have g: "(sel @ [i]) ! j = sel ! j" by (simp add: nth_append)
      have "sel ! j \<in> set sel" using True by simp
      then have "sel ! j < ?ng" "sel ! j \<noteq> i" using bound i(2) by auto
      with nth [of "sel ! j" r] r g sel True show ?thesis by simp
    next
      case False
      with j have "j = length sel" by simp
      then have "(sel @ [i]) ! j = i" by simp
      with nth [of i r] r i(1) \<open>j = length sel\<close> show ?thesis by simp
    qed
  qed
  moreover have "\<forall>g<?ng. g \<notin> set (sel @ [i]) \<longrightarrow> (\<forall>r\<in>set (group_rows d0 ! g). ?d' ! r = NA_I4)"
    using nth rest by auto
  ultimately show ?thesis
    unfolding marks_selection_def using len dist bound i
    by (simp add: length_assign_rows)
qed

lemma marks_selection_check:
  fixes d0 :: "int list"
  assumes inv: "marks_selection d0 sel d" and i: "i < length (group_keys d0)"
  shows "d ! (group_ri d0 ! (group_offsets d0 ! i)) = NA_I4 \<longleftrightarrow> i \<notin> set sel"
proof -
  let ?r = "group_ri d0 ! (group_offsets d0 ! i)"
  have r: "?r \<in> set (group_rows d0 ! i)" by (rule group_first_row [OF i])
  show ?thesis
  proof (cases "i \<in> set sel")
    case True
    then obtain j where j: "j < length sel" "sel ! j = i" by (auto simp: in_set_conv_nth)
    with inv r have "d ! ?r = int j" by (simp add: marks_selection_def)
    then have "d ! ?r \<noteq> NA_I4" by (simp add: NA_I4_def)
    with True show ?thesis by simp
  next
    case False
    with inv r i show ?thesis by (simp add: marks_selection_def)
  qed
qed

lemma sample_loop_selects:
  fixes d0 :: "int list"
  assumes N: "length d0 < 2147483648" and ng: "0 < length (group_keys d0)"
    and inv: "marks_selection d0 sel d"
  shows "case sample_loop (group_ri d0) (group_offsets d0) mb rs (length sel) d of
           None \<Rightarrow> select_groups (length (group_keys d0)) mb rs sel = None
         | Some d' \<Rightarrow> \<exists>sel'. select_groups (length (group_keys d0)) mb rs sel = Some sel'
                               \<and> marks_selection d0 sel' d'"
  using inv
proof (induction rs arbitrary: sel d)
  case Nil
  then show ?case by auto
next
  case (Cons r rs)
  let ?ng = "length (group_keys d0)"
  let ?i = "r mod ?ng"
  have i: "?i < ?ng" using ng by simp
  show ?case
  proof (cases "length sel < mb")
    case False
    with Cons.prems show ?thesis by auto
  next
    case lt: True
    note chk = marks_selection_check [OF Cons.prems i]
    show ?thesis
    proof (cases "?i \<in> set sel")
      case True
      with chk lt have e1: "sample_loop (group_ri d0) (group_offsets d0) mb (r # rs) (length sel) d
          = sample_loop (group_ri d0) (group_offsets d0) mb rs (length sel) d"
        by (simp add: ngroups_group_offsets Let_def)
      from True lt have e2: "select_groups ?ng mb (r # rs) sel = select_groups ?ng mb rs sel"
        by simp
      show ?thesis unfolding e1 e2 by (rule Cons.IH [OF Cons.prems])
    next
      case False
      from Cons.prems have "distinct sel" "\<forall>g\<in>set sel. g < ?ng"
        by (simp_all add: marks_selection_def)
      then have "length sel < ?ng" using i False by (rule selection_length_less)
      then have "length sel < 2147483648" using length_group_keys_le [of d0] N by simp
      then have v: "to_i32 (int (length sel)) = int (length sel)" by (intro to_i32_id) simp_all
      let ?d' = "assign_rows (group_ri d0) (group_offsets d0 ! ?i) (group_offsets d0 ! (?i + 1))
                  (int (length sel)) d"
      from False chk lt v have e1: "sample_loop (group_ri d0) (group_offsets d0) mb (r # rs) (length sel) d
          = sample_loop (group_ri d0) (group_offsets d0) mb rs (length (sel @ [?i])) ?d'"
        by (simp add: ngroups_group_offsets Let_def)
      from False lt have e2: "select_groups ?ng mb (r # rs) sel = select_groups ?ng mb rs (sel @ [?i])"
        by simp
      show ?thesis unfolding e1 e2
        by (rule Cons.IH [OF marks_selection_step [OF Cons.prems i False]])
    qed
  qed
qed

lemma sample_exemplars_not_sampled:
  "\<not> ngroups (group_offsets d) > (max_bins + n_na_bins) mod 2 ^ 64 \<Longrightarrow>
     sample_exemplars max_bins n_na_bins rs d = Some (d, False)"
  by (simp add: sample_exemplars_def Let_def)

lemma sample_exemplars_sampled:
  fixes d :: "int list"
  assumes N: "length d < 2147483648"
    and gt: "ngroups (group_offsets d) > (max_bins + n_na_bins) mod 2 ^ 64"
  shows "case sample_exemplars max_bins n_na_bins rs d of
           None \<Rightarrow> card ((\<lambda>r. r mod ngroups (group_offsets d)) ` set rs) < max_bins
         | Some (d', was_sampled) \<Rightarrow>
             was_sampled \<and> (\<exists>sel. length sel = max_bins \<and> marks_selection d sel d')"
proof -
  let ?ng = "length (group_keys d)"
  have ng: "0 < ?ng" using gt by (auto simp: ngroups_group_offsets)
  let ?loop = "sample_loop (group_ri d) (group_offsets d) max_bins rs 0 (replicate (length d) NA_I4)"
  have res: "sample_exemplars max_bins n_na_bins rs d = map_option (\<lambda>d'. (d', True)) ?loop"
    using gt by (simp add: sample_exemplars_def Let_def)
  note sel = sample_loop_selects [OF N ng marks_selection_init [of d], of max_bins rs, simplified]
  show ?thesis
  proof (cases ?loop)
    case None
    with sel have "select_groups ?ng max_bins rs [] = None" by simp
    from select_groups_None [OF this] None res show ?thesis
      by (simp add: ngroups_group_offsets)
  next
    case (Some d')
    with sel obtain sel' where s: "select_groups ?ng max_bins rs [] = Some sel'"
      "marks_selection d sel' d'" by auto
    from select_groups_length [OF s(1)] have "length sel' = max_bins" by simp
    with s(2) Some res show ?thesis by auto
  qed
qed

text \<open>
  Claim C4. For a members column of fewer than \<open>2\<^sup>3\<^sup>1\<close> rows and \<open>max_bins + n_na_bins\<close>
  that does not wrap as a \<open>size_t\<close>: \<open>sample_exemplars\<close> samples if and only if the
  number of groups exceeds \<open>max_bins + n_na_bins\<close>. When it does not, it returns the
  column as it is and \<open>was_sampled = false\<close>. When it does, the loop is either still
  running at the end of \<open>rs\<close>, and then fewer than \<open>max_bins\<close> distinct group indices
  were drawn, or it returns \<open>was_sampled = true\<close> and a column in which exactly
  \<open>max_bins\<close> distinct groups are selected: the rows of the \<open>j\<close>-th selected group hold
  \<open>j\<close>, for \<open>j = 0, \<dots>, max_bins - 1\<close>, and every row of an unselected group holds the NA
  sentinel.
\<close>

theorem sample_exemplars_selects:
  fixes d :: "int list"
  assumes N: "length d < 2147483648" and nowrap: "max_bins + n_na_bins < 2 ^ 64"
  shows "(\<not> ngroups (group_offsets d) > max_bins + n_na_bins \<longrightarrow>
            sample_exemplars max_bins n_na_bins rs d = Some (d, False))
       \<and> (ngroups (group_offsets d) > max_bins + n_na_bins \<longrightarrow>
            (case sample_exemplars max_bins n_na_bins rs d of
               None \<Rightarrow> card ((\<lambda>r. r mod ngroups (group_offsets d)) ` set rs) < max_bins
             | Some (d', was_sampled) \<Rightarrow>
                 was_sampled \<and> (\<exists>sel. length sel = max_bins \<and> marks_selection d sel d')))"
  using sample_exemplars_not_sampled [where d = d and max_bins = max_bins and n_na_bins = n_na_bins and rs = rs]
    sample_exemplars_sampled [OF N, where max_bins = max_bins and n_na_bins = n_na_bins and rs = rs] nowrap
  by simp

text \<open>After a sampling that leaves a group out, group 0 of the members is the NA group.\<close>

lemma sampled_group0:
  fixes d :: "int list"
  assumes m: "marks_selection d sel d1" and lt: "length sel < length (group_keys d)"
  shows "0 < length (group_keys d1) \<and> (\<forall>r\<in>set (group_rows d1 ! 0). d1 ! r = NA_I4)"
proof -
  let ?ng = "length (group_keys d)"
  from m have len: "length d1 = length d" and dist: "distinct sel"
    and bound: "\<forall>g\<in>set sel. g < ?ng"
    and sel: "\<forall>j<length sel. \<forall>r\<in>set (group_rows d ! (sel ! j)). d1 ! r = int j"
    and rest: "\<forall>g<?ng. g \<notin> set sel \<longrightarrow> (\<forall>r\<in>set (group_rows d ! g). d1 ! r = NA_I4)"
    by (simp_all add: marks_selection_def)
  have "\<exists>g<?ng. g \<notin> set sel"
  proof (rule ccontr)
    assume "\<not> (\<exists>g<?ng. g \<notin> set sel)"
    then have "{..<?ng} \<subseteq> set sel" by auto
    then have "card {..<?ng} \<le> card (set sel)" by (intro card_mono) simp_all
    with lt card_length [of sel] show False by simp
  qed
  then obtain g where g: "g < ?ng" "g \<notin> set sel" by blast
  from group_rows_nonempty [OF g(1)] obtain r0 where r0: "r0 \<in> set (group_rows d ! g)"
    by (cases "group_rows d ! g") auto
  with g rest have na: "d1 ! r0 = NA_I4" by simp
  have r0N: "r0 < length d1" using r0 g(1) len by (simp add: in_group_rows)
  then have mem: "NA_I4 \<in> set d1" using na by (metis nth_mem)
  have ge: "NA_I4 \<le> v" if "v \<in> set d1" for v
  proof -
    from that obtain r where r: "r < length d1" "d1 ! r = v" by (auto simp: in_set_conv_nth)
    with len row_has_group [of r d] obtain g' where g': "g' < ?ng" "r \<in> set (group_rows d ! g')"
      by auto
    show ?thesis
    proof (cases "g' \<in> set sel")
      case True
      then obtain j where "j < length sel" "sel ! j = g'" by (auto simp: in_set_conv_nth)
      with sel g'(2) r(2) have "v = int j" by auto
      then show ?thesis by (simp add: NA_I4_def)
    next
      case False
      with rest g' r(2) show ?thesis by auto
    qed
  qed
  have pos: "0 < length (group_keys d1)"
    using mem group_keys_props(3) [of d1] by (cases "group_keys d1") auto
  have "group_keys d1 ! 0 \<in> set d1"
    using pos nth_mem [of 0 "group_keys d1"] by (simp add: group_keys_props(3))
  then have lo: "NA_I4 \<le> group_keys d1 ! 0" by (rule ge)
  from mem have "NA_I4 \<in> set (group_keys d1)" by (simp add: group_keys_props(3))
  then obtain i where i: "i < length (group_keys d1)" "group_keys d1 ! i = NA_I4"
    by (auto simp: in_set_conv_nth)
  have "group_keys d1 ! 0 \<le> group_keys d1 ! i"
    using group_keys_props(2) [of d1] i(1) by (simp add: sorted_nth_mono)
  with lo i(2) have "group_keys d1 ! 0 = NA_I4" by simp
  with pos show ?thesis by (simp add: in_group_rows)
qed

lemma sampled_then_finalized:
  fixes d :: "int list"
  assumes N: "length d < 2147483648" and na: "n_na_bins \<le> 3"
    and s: "sample_exemplars max_bins n_na_bins rs d = Some (d1, ws)"
  shows "length d1 = length d"
    and "ws \<Longrightarrow> 0 < length (group_keys d1) \<and> (\<forall>r\<in>set (group_rows d1 ! 0). d1 ! r = NA_I4)"
    and "\<not> ws \<Longrightarrow> d1 = d"
proof -
  let ?gt = "ngroups (group_offsets d) > (max_bins + n_na_bins) mod 2 ^ 64"
  have notgt: "\<not> ?gt \<Longrightarrow> d1 = d \<and> \<not> ws"
    using sample_exemplars_not_sampled [where d = d and max_bins = max_bins and n_na_bins = n_na_bins and rs = rs] s by simp
  have isgt: "ws \<and> (\<exists>sel. length sel = max_bins \<and> marks_selection d sel d1)" if ?gt
    using sample_exemplars_sampled [OF N that, where rs = rs] s by simp
  show "\<not> ws \<Longrightarrow> d1 = d" using notgt isgt by blast
  show "length d1 = length d" using notgt isgt by (auto simp: marks_selection_def)
  show "0 < length (group_keys d1) \<and> (\<forall>r\<in>set (group_rows d1 ! 0). d1 ! r = NA_I4)" if ws
  proof -
    from that notgt have gt: ?gt by blast
    from isgt [OF gt] obtain sel where sel: "length sel = max_bins" "marks_selection d sel d1"
      by blast
    from sel(2) have "distinct sel" "\<forall>g\<in>set sel. g < length (group_keys d)"
      by (simp_all add: marks_selection_def)
    then have "card (set sel) \<le> card {..<length (group_keys d)}"
      by (intro card_mono) auto
    with \<open>distinct sel\<close> sel(1) have "max_bins \<le> length (group_keys d)"
      by (simp add: distinct_card)
    with length_group_keys_le [of d] N have "max_bins < 2147483648" by simp
    with na have "(max_bins + n_na_bins) mod 2 ^ 64 = max_bins + n_na_bins" by simp
    with gt have "length sel < length (group_keys d)"
      by (simp add: sel(1) ngroups_group_offsets)
    from sampled_group0 [OF sel(2) this] show ?thesis .
  qed
qed

lemma upt5: "[0..<5] = [0, Suc 0, Suc (Suc 0), Suc (Suc (Suc 0)), Suc (Suc (Suc (Suc 0)))]"
  by (simp add: upt_rec)

lemma groups_of_five:
  "group_keys [3, 1, 3, - 5, 1 :: int] = [- 5, 1, 3]"
  "group_rows [3, 1, 3, - 5, 1 :: int] = [[3], [1, 4], [0, 2]]"
  "group_ri [3, 1, 3, - 5, 1 :: int] = [3, 1, 4, 0, 2]"
  "group_offsets [3, 1, 3, - 5, 1 :: int] = [0, 1, 3, 5]"
  by (simp_all add: group_keys_def group_rows_def group_ri_def group_offsets_def upt5)

lemma sample_two_of_three:
  "sample_exemplars 2 0 [7, 2, 2, 1, 5] [3, 1, 3, - 5, 1] = Some ([1, 0, 1, NA_I4, 0], True)"
  by (simp add: sample_exemplars_def groups_of_five ngroups_def assign_rows_def to_i32_def
        NA_I4_def Let_def upt_rec)

theorem sample_exemplars_selects_witness:
  "length [3, 1, 3, - 5, 1 :: int] < 2147483648 \<and> (2::nat) + 0 < 2 ^ 64
   \<and> ngroups (group_offsets [3, 1, 3, - 5, 1 :: int]) > 2 + 0
   \<and> sample_exemplars 2 0 [7, 2, 2, 1, 5] [3, 1, 3, - 5, 1] = Some ([1, 0, 1, NA_I4, 0], True)
   \<and> (\<exists>sel. length sel = 2 \<and> marks_selection [3, 1, 3, - 5, 1] sel [1, 0, 1, NA_I4, 0])
   \<and> \<not> ngroups (group_offsets [3, 1, 3, - 5, 1 :: int]) > 3 + 0
   \<and> sample_exemplars 3 0 [7, 2, 2, 1, 5] [3, 1, 3, - 5, 1] = Some ([3, 1, 3, - 5, 1], False)"
proof -
  have N: "length [3, 1, 3, - 5, 1 :: int] < 2147483648" by simp
  have w2: "(2::nat) + 0 < 2 ^ 64" and w3: "(3::nat) + 0 < 2 ^ 64" by simp_all
  have g: "ngroups (group_offsets [3, 1, 3, - 5, 1 :: int]) = 3"
    by (simp add: groups_of_five ngroups_def)
  from sample_exemplars_selects [OF N w2, of "[7, 2, 2, 1, 5]"] g sample_two_of_three
  have "\<exists>sel. length sel = 2 \<and> marks_selection [3, 1, 3, - 5, 1] sel [1, 0, 1, NA_I4, 0]"
    by simp
  moreover from sample_exemplars_selects [OF N w3, of "[7, 2, 2, 1, 5]"] g
  have "sample_exemplars 3 0 [7, 2, 2, 1, 5] [3, 1, 3, - 5, 1] = Some ([3, 1, 3, - 5, 1], False)"
    by simp
  ultimately show ?thesis using N w2 g sample_two_of_three by simp
qed

section \<open>The dispatch and the exits of aggregate\<close>

subsection \<open>Lengths of the members column\<close>

lemma length_group_0d: "length (group_0d col d) = length d"
  unfolding group_0d_def Let_def by (rule fold_steps_length) simp

lemma length_group_0d_table: "length (group_0d_table dt d) = length d"
  by (simp add: group_0d_table_def length_group_0d split: list.splits column.splits)

lemma length_group_1d_continuous: "length (group_1d_continuous eps B c) = length (cc_vals c)"
  by (simp add: group_1d_continuous_def get_nrows_def Let_def)

lemma length_group_2d_continuous: "length (group_2d_continuous eps bx by c0 c1) = length (cc_vals c0)"
  by (simp add: group_2d_continuous_def get_nrows_def Let_def)

lemma length_group_1d_categorical: "length (group_1d_categorical cat d) = length d"
  unfolding group_1d_categorical_def Let_def
  by (rule fold_steps_length) (rule length_assign_rows)

lemma length_group_2d_categorical_str: "length (group_2d_categorical_str c0 c1 d) = length d"
  unfolding group_2d_categorical_str_def Let_def
  by (rule fold_steps_length, rule fold_steps_length) simp

lemma length_group_2d_mixed_str: "length (group_2d_mixed_str eps bx c cat d) = length d"
  unfolding group_2d_mixed_str_def Let_def
  by (rule fold_steps_length, rule fold_steps_length) simp

lemma contconvs_of_length:
  assumes "\<forall>c\<in>set (columns dt). col_length c = nrows dt" and "c \<in> set (contconvs_of dt)"
  shows "length (cc_vals c) = nrows dt"
proof -
  from assms(2) obtain t vs where "NumCol t vs \<in> set (columns dt)" "c = column_convertor vs"
    by (auto simp: contconvs_of_def split: column.splits)
  with assms(1) show ?thesis by (auto simp: col_length_def column_convertor_def Let_def)
qed

lemma switch_ncols:
  fixes n :: nat
  shows "n = 0 \<Longrightarrow> (if n = 0 then a else if n = 1 then b else if n = 2 then c else e) = a"
    and "n = 1 \<Longrightarrow> (if n = 0 then a else if n = 1 then b else if n = 2 then c else e) = b"
    and "n = 2 \<Longrightarrow> (if n = 0 then a else if n = 1 then b else if n = 2 then c else e) = c"
    and "2 < n \<Longrightarrow> (if n = 0 then a else if n = 1 then b else if n = 2 then c else e) = e"
  by simp_all

lemma dispatch_0d:
  "length (contconvs_of dt) + length (catcols_of dt) = 0 \<Longrightarrow>
     dispatch eps P E dt = Inr (group_0d_table dt (fresh_members E), nd_max_bins P, 0)"
  unfolding dispatch_def Let_def by (rule switch_ncols(1))

lemma dispatch_1d:
  "length (contconvs_of dt) + length (catcols_of dt) = 1 \<Longrightarrow>
     dispatch eps P E dt
       = Inr (group_1d eps P (contconvs_of dt) (catcols_of dt) (fresh_members E), n_bins P, 1)"
  unfolding dispatch_def Let_def by (rule switch_ncols(2))

lemma dispatch_2d:
  "length (contconvs_of dt) + length (catcols_of dt) = 2 \<Longrightarrow>
     dispatch eps P E dt
       = (case group_2d eps P (contconvs_of dt) (catcols_of dt) (fresh_members E) of
            Inl e \<Rightarrow> Inl e
          | Inr d' \<Rightarrow> Inr (d', (nx_bins P * ny_bins P) mod 2 ^ 64, 3))"
  unfolding dispatch_def Let_def by (rule switch_ncols(3))

lemma dispatch_nd:
  "2 < length (contconvs_of dt) + length (catcols_of dt) \<Longrightarrow>
     dispatch eps P E dt
       = (case group_nd E of Inl e \<Rightarrow> Inl e | Inr d' \<Rightarrow> Inr (d', nd_max_bins P, 0))"
  unfolding dispatch_def Let_def by (rule switch_ncols(4))

lemma dispatch_length:
  assumes wf: "well_formed P E dt" and r: "dispatch eps P E dt = Inr (d, max_bins, n_na_bins)"
  shows "length d = nrows dt \<and> n_na_bins \<le> 3"
proof -
  let ?cc = "contconvs_of dt" and ?cat = "catcols_of dt"
  from wf have cols: "\<forall>c\<in>set (columns dt). col_length c = nrows dt"
    and fresh: "length (fresh_members E) = nrows dt"
    and nd: "\<And>d. nd_outcome E = Inr d \<Longrightarrow> length d = nrows dt"
    by (auto simp: well_formed_def)
  have cc: "length (cc_vals (?cc ! i)) = nrows dt" if "i < length ?cc" for i
    using contconvs_of_length [OF cols] that by simp
  consider "length ?cc + length ?cat = 0" | "length ?cc + length ?cat = 1"
    | "length ?cc + length ?cat = 2" | "2 < length ?cc + length ?cat" by linarith
  then show ?thesis
  proof cases
    case 1
    from r fresh show ?thesis unfolding dispatch_0d [OF 1] by (auto simp: length_group_0d_table)
  next
    case 2
    from r have d: "d = group_1d eps P ?cc ?cat (fresh_members E)" and n: "n_na_bins = 1"
      unfolding dispatch_1d [OF 2] by simp_all
    show ?thesis
    proof (cases "?cc = []")
      case True
      with d fresh n show ?thesis by (simp add: group_1d_def length_group_1d_categorical)
    next
      case False
      then have "0 < length ?cc" by simp
      from cc [OF this] d n False show ?thesis
        by (simp add: group_1d_def length_group_1d_continuous)
    qed
  next
    case 3
    from r obtain d' where g: "group_2d eps P ?cc ?cat (fresh_members E) = Inr d'"
      and d: "d = d'" and n: "n_na_bins = 3"
      unfolding dispatch_2d [OF 3] by (auto split: sum.splits)
    have "length d' = nrows dt"
    proof (cases "length ?cc = 2")
      case True
      then have "0 < length ?cc" by simp
      from cc [OF this] g True show ?thesis
        by (auto simp: group_2d_def length_group_2d_continuous)
    next
      case False
      with g fresh show ?thesis
        by (auto simp: group_2d_def group_2d_categorical_def group_2d_mixed_def Let_def
              length_group_2d_categorical_str length_group_2d_mixed_str split: if_splits)
    qed
    with d n show ?thesis by simp
  next
    case 4
    from r have "group_nd E = Inr d" and n: "n_na_bins = 0"
      unfolding dispatch_nd [OF 4] by (auto split: sum.splits)
    then have "nd_outcome E = Inr d" by (auto simp: group_nd_def split: sum.splits)
    from nd [OF this] n show ?thesis by simp
  qed
qed

subsection \<open>Exceptions\<close>

lemma finish_result:
  "finish E ws d outs = (r, outs') \<Longrightarrow>
     (r = Inr () \<or> (\<exists>x. r = Inl (SinkError x)))
     \<and> (\<exists>ex counts d2. aggregate_exemplars ws d = (ex, counts, d2)
          \<and> outs' = \<lparr>dt_exemplars_in = Some \<lparr>exemplar_rows = ex, members_count = counts\<rparr>,
                      dt_members_in = Some d2\<rparr>)"
  by (auto simp: finish_def Let_def split: prod.splits option.splits)




section \<open>Member counts\<close>

lemma finalizer_range:
  fixes d :: "int list"
  assumes N: "length d < 2147483648"
    and res: "aggregate_exemplars ws d = (ex, counts, d2)"
    and na: "ws \<Longrightarrow> \<forall>r\<in>set (group_rows d ! 0). d ! r = NA_I4"
    and r: "r < length d"
  shows "d2 ! r = NA_I4 \<or> (0 \<le> d2 ! r \<and> d2 ! r < int (length counts))"
proof -
  define w where "w = (if ws then 1 else 0 :: nat)"
  note parts = aggregate_exemplars_parts [OF N res, folded w_def]
  from row_has_group [OF r] obtain g where g: "g < length (group_keys d)" "r \<in> set (group_rows d ! g)"
    by blast
  show ?thesis
  proof (cases "w \<le> g")
    case True
    from parts(5) [OF True g] have "d2 ! r = int (g - w)" .
    with True g(1) parts(2) show ?thesis by simp
  next
    case False
    then have ws: ws and g0: "g = 0" by (auto simp: w_def split: if_splits)
    have "\<forall>g'. w \<le> g' \<and> g' < length (group_keys d) \<longrightarrow> r \<notin> set (group_rows d ! g')"
      using group_unique [OF g(1) _ g(2)] False by blast
    from parts(6) [OF r this] na [OF ws] g(2) g0 show ?thesis by simp
  qed
qed

lemma aggregate_return:
  assumes wf: "well_formed P E dt"
    and ret: "aggregate eps P E dt outs = Some (Inr (), outs')"
  shows "\<exists>d1 ws. finish E ws d1 outs = (Inr (), outs') \<and> length d1 = nrows dt
           \<and> (ws \<longrightarrow> (\<forall>r\<in>set (group_rows d1 ! 0). d1 ! r = NA_I4))
           \<and> (ws \<longrightarrow> min_rows P \<le> nrows dt
                 \<and> (\<exists>d max_bins n_na_bins. dispatch eps P E dt = Inr (d, max_bins, n_na_bins)
                      \<and> sample_exemplars max_bins n_na_bins (rand_results E) d = Some (d1, True)))"
proof (cases "nrows dt \<ge> min_rows P")
  case False
  with ret have "finish E False (group_0d_table dt (fresh_members E)) outs = (Inr (), outs')"
    by (auto simp: aggregate_def split: option.splits)
  moreover have "length (group_0d_table dt (fresh_members E)) = nrows dt"
    using wf by (simp add: length_group_0d_table well_formed_def)
  ultimately show ?thesis by blast
next
  case True
  with ret obtain d mb nna d1 ws where
    disp: "dispatch eps P E dt = Inr (d, mb, nna)"
    and smp: "sample_exemplars mb nna (rand_results E) d = Some (d1, ws)"
    and fin: "finish E ws d1 outs = (Inr (), outs')"
    by (auto simp: aggregate_def split: option.splits sum.splits prod.splits)
  from dispatch_length [OF wf disp] have len: "length d = nrows dt" and nna: "nna \<le> 3" by simp_all
  from wf len have N: "length d < 2147483648" by (simp add: well_formed_def)
  have s: "ws \<longrightarrow> min_rows P \<le> nrows dt
          \<and> (\<exists>d max_bins n_na_bins. dispatch eps P E dt = Inr (d, max_bins, n_na_bins)
               \<and> sample_exemplars max_bins n_na_bins (rand_results E) d = Some (d1, True))"
    using True disp smp by auto
  have l: "length d1 = nrows dt"
    using sampled_then_finalized(1) [OF N nna smp] len by simp
  have g: "ws \<longrightarrow> (\<forall>r\<in>set (group_rows d1 ! 0). d1 ! r = NA_I4)"
    using sampled_then_finalized(2) [OF N nna smp] by simp
  from fin l g s show ?thesis by blast
qed

text \<open>
  Claim C1. On return from \<open>aggregate\<close> the members table has one entry per input
  row, and for every exemplar index \<open>k\<close> the \<open>members_count\<close> of exemplar \<open>k\<close> is the number
  of rows \<open>i\<close> with \<open>exemplar_id[i] = k\<close>. Every entry is the NA sentinel or an index
  into the exemplars table; an NA entry is counted under no \<open>k\<close>, and there is one only
  when \<open>sample_exemplars\<close> has sampled.
\<close>

theorem aggregate_members_count:
  assumes wf: "well_formed P E dt"
    and ret: "aggregate eps P E dt outs = Some (Inr (), outs')"
  shows "\<exists>ex d2. dt_exemplars_in outs' = Some ex \<and> dt_members_in outs' = Some d2
           \<and> length d2 = nrows dt
           \<and> length (members_count ex) = length (exemplar_rows ex)
           \<and> (\<forall>k<length (exemplar_rows ex).
                 members_count ex ! k = int (length (filter (\<lambda>i. d2 ! i = int k) [0..<nrows dt])))
           \<and> (\<forall>i<nrows dt. d2 ! i = NA_I4 \<or> (0 \<le> d2 ! i \<and> d2 ! i < int (length (exemplar_rows ex))))
           \<and> ((\<exists>i<nrows dt. d2 ! i = NA_I4) \<longrightarrow>
                 min_rows P \<le> nrows dt
                 \<and> (\<exists>d max_bins n_na_bins d1. dispatch eps P E dt = Inr (d, max_bins, n_na_bins)
                      \<and> sample_exemplars max_bins n_na_bins (rand_results E) d = Some (d1, True)))"
proof -
  from aggregate_return [OF wf ret] obtain d1 ws where
    fin: "finish E ws d1 outs = (Inr (), outs')" and len: "length d1 = nrows dt"
    and na: "ws \<Longrightarrow> \<forall>r\<in>set (group_rows d1 ! 0). d1 ! r = NA_I4"
    and sampled: "ws \<Longrightarrow> min_rows P \<le> nrows dt
          \<and> (\<exists>d max_bins n_na_bins. dispatch eps P E dt = Inr (d, max_bins, n_na_bins)
               \<and> sample_exemplars max_bins n_na_bins (rand_results E) d = Some (d1, True))"
    by auto
  from finish_result [OF fin] obtain ex counts d2 where
    agg: "aggregate_exemplars ws d1 = (ex, counts, d2)"
    and outs': "outs' = \<lparr>dt_exemplars_in = Some \<lparr>exemplar_rows = ex, members_count = counts\<rparr>,
                       dt_members_in = Some d2\<rparr>" by blast
  from wf len have N: "length d1 < 2147483648" by (simp add: well_formed_def)
  note parts = aggregate_exemplars_parts [OF N agg]
  have neg: "ws \<Longrightarrow> \<forall>r\<in>set (group_rows d1 ! 0). d1 ! r < 0"
    using na by (simp add: NA_I4_def)
  have cnt: "\<forall>k<length ex. counts ! k = int (length (filter (\<lambda>i. d2 ! i = int k) [0..<nrows dt]))"
    using finalizer_counts [OF N agg neg] parts(1,2,3) len by simp
  have rng: "\<forall>i<nrows dt. d2 ! i = NA_I4 \<or> (0 \<le> d2 ! i \<and> d2 ! i < int (length ex))"
    using finalizer_range [OF N agg na] parts(2,3) len by simp
  have "ws" if "i < nrows dt" "d2 ! i = NA_I4" for i
  proof (rule ccontr)
    assume "\<not> ws"
    with agg have "aggregate_exemplars False d1 = (ex, counts, d2)" by simp
    from finalizer_ids_in_range [OF N this, of i] that len show False
      by (simp add: NA_I4_def)
  qed
  with sampled have only: "(\<exists>i<nrows dt. d2 ! i = NA_I4) \<longrightarrow>
                 min_rows P \<le> nrows dt
                 \<and> (\<exists>d max_bins n_na_bins d1. dispatch eps P E dt = Inr (d, max_bins, n_na_bins)
                      \<and> sample_exemplars max_bins n_na_bins (rand_results E) d = Some (d1, True))"
    by blast
  from cnt rng only show ?thesis using parts(1,2,3) len by (simp add: outs')
qed

lemma ranks_of_two_strings: "group_0d [Some ''a'', Some ''b''] [0, 0] = [0, 1]"
  by (simp add: group_0d_def sort_na_last_def upt2 to_i32_def)

lemma sample_one_of_two: "sample_exemplars 1 0 [0] [0, 1] = Some ([0, NA_I4], True)"
  by (simp add: sample_exemplars_def group_keys_def group_rows_def group_ri_def group_offsets_def
        upt2 ngroups_def assign_rows_def to_i32_def NA_I4_def Let_def)

lemma finalize_one_of_two: "aggregate_exemplars True [0, NA_I4] = ([0], [1], [0, NA_I4])"
  by (simp add: aggregate_exemplars_def group_keys_def group_rows_def group_ri_def
        group_offsets_def upt2 ngroups_def to_i32_def NA_I4_def Let_def)

lemma aggregate_three_string_columns:
  "aggregate epsilon_double
     \<lparr>min_rows = 0, n_bins = 5, nx_bins = 2, ny_bins = 2, nd_max_bins = 1, max_dimensions = 5\<rparr>
     \<lparr>rand_results = [0], fresh_members = [0, 0], progress_sink = quiet_sink,
       nd_outcome = Inr [0, 0]\<rparr>
     \<lparr>nrows = 2, columns = [CatCol STR32 [Some ''a'', Some ''b''],
       CatCol STR32 [Some ''c'', Some ''d''], CatCol STR32 [Some ''e'', Some ''f'']]\<rparr>
     \<lparr>dt_exemplars_in = None, dt_members_in = None\<rparr>
   = Some (Inr (), \<lparr>dt_exemplars_in = Some \<lparr>exemplar_rows = [0], members_count = [1]\<rparr>,
                    dt_members_in = Some [0, NA_I4]\<rparr>)"
proof -
  let ?dt = "\<lparr>nrows = 2, columns = [CatCol STR32 [Some ''a'', Some ''b''],
       CatCol STR32 [Some ''c'', Some ''d''], CatCol STR32 [Some ''e'', Some ''f'']]\<rparr>"
  have "contconvs_of ?dt = []" "catcols_of ?dt = []"
    by (simp_all add: contconvs_of_def catcols_of_def)
  then have n: "length (contconvs_of ?dt) + length (catcols_of ?dt) = 0" by simp
  have g: "group_0d_table ?dt [0, 0] = [0, 1]"
    by (simp add: group_0d_table_def ranks_of_two_strings)
  show ?thesis
    by (simp add: aggregate_def dispatch_0d [OF n] g sample_one_of_two finish_def
          finalize_one_of_two del: One_nat_def)
qed

theorem aggregate_members_count_witness:
  "well_formed
     \<lparr>min_rows = 0, n_bins = 5, nx_bins = 2, ny_bins = 2, nd_max_bins = 1, max_dimensions = 5\<rparr>
     \<lparr>rand_results = [0], fresh_members = [0, 0], progress_sink = quiet_sink,
       nd_outcome = Inr [0, 0]\<rparr>
     \<lparr>nrows = 2, columns = [CatCol STR32 [Some ''a'', Some ''b''],
       CatCol STR32 [Some ''c'', Some ''d''], CatCol STR32 [Some ''e'', Some ''f'']]\<rparr>
   \<and> aggregate epsilon_double
     \<lparr>min_rows = 0, n_bins = 5, nx_bins = 2, ny_bins = 2, nd_max_bins = 1, max_dimensions = 5\<rparr>
     \<lparr>rand_results = [0], fresh_members = [0, 0], progress_sink = quiet_sink,
       nd_outcome = Inr [0, 0]\<rparr>
     \<lparr>nrows = 2, columns = [CatCol STR32 [Some ''a'', Some ''b''],
       CatCol STR32 [Some ''c'', Some ''d''], CatCol STR32 [Some ''e'', Some ''f'']]\<rparr>
     \<lparr>dt_exemplars_in = None, dt_members_in = None\<rparr>
   = Some (Inr (), \<lparr>dt_exemplars_in = Some \<lparr>exemplar_rows = [0], members_count = [1]\<rparr>,
                    dt_members_in = Some [0, NA_I4]\<rparr>)
   \<and> [1 :: int] ! 0 = int (length (filter (\<lambda>i. [0, NA_I4] ! i = int 0) [0..<2]))"
proof -
  let ?P = "\<lparr>min_rows = 0, n_bins = 5, nx_bins = 2, ny_bins = 2, nd_max_bins = 1, max_dimensions = 5\<rparr>"
  let ?E = "\<lparr>rand_results = [0], fresh_members = [0, 0], progress_sink = quiet_sink,
       nd_outcome = Inr [0, 0]\<rparr>"
  let ?dt = "\<lparr>nrows = 2, columns = [CatCol STR32 [Some ''a'', Some ''b''],
       CatCol STR32 [Some ''c'', Some ''d''], CatCol STR32 [Some ''e'', Some ''f'']]\<rparr>"
  have wf: "well_formed ?P ?E ?dt" by (simp add: well_formed_def col_length_def)
  from aggregate_members_count [OF wf aggregate_three_string_columns]
  have "\<forall>k<length [0 :: int].
         [1] ! k = int (length (filter (\<lambda>i. [0, NA_I4] ! i = int k) [0..<2]))"
    by simp
  then have "[1 :: int] ! 0 = int (length (filter (\<lambda>i. [0, NA_I4] ! i = int 0) [0..<2]))"
    by (metis length_Cons list.size(3) zero_less_Suc)
  with wf aggregate_three_string_columns show ?thesis by blast
qed

section \<open>The path without grouping\<close>

lemma sort_na_last_perm:
  "length (sort_na_last col) = length col"
  "distinct (sort_na_last col)"
  "set (sort_na_last col) = {0..<length col}"
proof -
  show "length (sort_na_last col) = length col"
    using sum_length_filter_compl [of "\<lambda>i. col ! i \<noteq> None" "[0..<length col]"]
    by (simp add: sort_na_last_def)
  show "distinct (sort_na_last col)" by (auto simp: sort_na_last_def)
  show "set (sort_na_last col) = {0..<length col}" by (auto simp: sort_na_last_def)
qed

lemma group_0d_ranks:
  assumes len: "length d = length col" and N: "length col < 2147483648" and p: "p < length col"
  shows "group_0d col d ! (sort_na_last col ! p) = int p"
proof -
  let ?ri = "sort_na_last col"
  have "fold (\<lambda>i d. d[?ri ! i := to_i32 (int i)]) [0..<length col] d ! (?ri ! p) = to_i32 (int p)"
  proof (rule fold_steps_hit [where S = "\<lambda>i. {?ri ! i}" and v = "\<lambda>i. to_i32 (int i)"])
    show "?ri ! p < length d"
      using nth_mem [of p ?ri] p by (simp add: sort_na_last_perm len)
    show "\<forall>j\<in>set [0..<length col]. j \<noteq> p \<longrightarrow> ?ri ! p \<notin> {?ri ! j}"
      using p sort_na_last_perm(1,2) [of col] by (auto simp: nth_eq_iff_index_eq)
  qed (use p in \<open>simp_all add: nth_list_update\<close>)
  moreover have "to_i32 (int p) = int p" using p N by (intro to_i32_id) simp_all
  ultimately show ?thesis by (simp add: group_0d_def Let_def)
qed

lemma group_0d_table_ranks:
  assumes wf: "well_formed P E dt"
  defines "d0 \<equiv> group_0d_table dt (fresh_members E)" and "ri \<equiv> first_column_order dt"
  shows "length d0 = nrows dt" "length ri = nrows dt" "distinct ri" "set ri = {0..<nrows dt}"
    "\<And>p. p < nrows dt \<Longrightarrow> d0 ! (ri ! p) = int p"
proof -
  from wf have fresh: "length (fresh_members E) = nrows dt" and N: "nrows dt < 2147483648"
    and cols: "\<forall>c\<in>set (columns dt). col_length c = nrows dt"
    and empty: "columns dt = [] \<Longrightarrow> nrows dt = 0"
    by (simp_all add: well_formed_def)
  show "length d0 = nrows dt" by (simp add: d0_def length_group_0d_table fresh)
  have "length ri = nrows dt \<and> distinct ri \<and> set ri = {0..<nrows dt}
        \<and> (\<forall>p<nrows dt. d0 ! (ri ! p) = int p)"
  proof (cases "columns dt")
    case Nil
    with empty show ?thesis by (simp add: ri_def first_column_order_def)
  next
    case (Cons c cs)
    with cols have c: "col_length c = nrows dt" by simp
    show ?thesis
    proof (cases c)
      case (NumCol t vs)
      with c have "length vs = nrows dt" by (simp add: col_length_def)
      with Cons NumCol fresh N group_0d_ranks [of "fresh_members E" vs] sort_na_last_perm [of vs]
      show ?thesis by (simp add: ri_def d0_def first_column_order_def group_0d_table_def)
    next
      case (CatCol t ss)
      with c have "length ss = nrows dt" by (simp add: col_length_def)
      with Cons CatCol fresh N group_0d_ranks [of "fresh_members E" ss] sort_na_last_perm [of ss]
      show ?thesis by (simp add: ri_def d0_def first_column_order_def group_0d_table_def)
    qed
  qed
  then show "length ri = nrows dt" "distinct ri" "set ri = {0..<nrows dt}"
    "\<And>p. p < nrows dt \<Longrightarrow> d0 ! (ri ! p) = int p" by simp_all
qed

text \<open>A members column that is the inverse of a permutation is left as it is by the finalizer.\<close>

lemma inverse_perm_props:
  fixes d0 :: "int list"
  assumes len: "length d0 = n" "length ri = n" and dist: "distinct ri" and set: "set ri = {0..<n}"
    and inv: "\<And>p. p < n \<Longrightarrow> d0 ! (ri ! p) = int p"
  shows "distinct d0" "set d0 = int ` {0..<n}" "\<And>i. i < n \<Longrightarrow> ri ! nat (d0 ! i) = i"
    "\<And>i. i < n \<Longrightarrow> 0 \<le> d0 ! i \<and> d0 ! i < int n"
proof -
  have ex: "\<exists>p<n. ri ! p = i" if "i < n" for i
    using that set len(2) by (metis atLeastLessThan_iff in_set_conv_nth zero_le)
  show rank: "ri ! nat (d0 ! i) = i" if "i < n" for i
  proof -
    from ex [OF that] obtain p where "p < n" "ri ! p = i" by blast
    with inv [of p] show ?thesis by auto
  qed
  show range: "0 \<le> d0 ! i \<and> d0 ! i < int n" if "i < n" for i
  proof -
    from ex [OF that] obtain p where "p < n" "ri ! p = i" by blast
    with inv [of p] show ?thesis by auto
  qed
  show "distinct d0"
  proof (subst distinct_conv_nth, intro allI impI)
    fix i j assume "i < length d0" "j < length d0" "i \<noteq> j"
    then have "ri ! nat (d0 ! i) \<noteq> ri ! nat (d0 ! j)" using rank len(1) by simp
    then show "d0 ! i \<noteq> d0 ! j" by auto
  qed
  show "set d0 = int ` {0..<n}"
  proof
    show "set d0 \<subseteq> int ` {0..<n}"
    proof
      fix v assume "v \<in> set d0"
      then obtain i where i: "i < n" "d0 ! i = v" using len(1) by (auto simp: in_set_conv_nth)
      with range [of i] have "v = int (nat v)" "nat v < n" by (simp, linarith)
      then show "v \<in> int ` {0..<n}" by (metis atLeastLessThan_iff image_eqI zero_le)
    qed
    show "int ` {0..<n} \<subseteq> set d0"
    proof
      fix v assume "v \<in> int ` {0..<n}"
      then obtain p where p: "p < n" "v = int p" by auto
      have "ri ! p < n" using p(1) set len(2) nth_mem [of p ri] by simp
      with inv [OF p(1)] p(2) len(1) show "v \<in> set d0" by (metis nth_mem)
    qed
  qed
qed

lemma group_keys_inverse_perm:
  fixes d0 :: "int list"
  assumes "distinct d0" "set d0 = int ` {0..<n}"
  shows "group_keys d0 = map int [0..<n]"
proof (rule sorted_distinct_set_unique)
  show "sorted (group_keys d0)" "distinct (group_keys d0)" by (rule group_keys_props)+
  show "sorted (map int [0..<n])" by (simp add: sorted_map sorted_wrt_iff_nth_less)
  show "distinct (map int [0..<n])" by (simp add: distinct_map)
  show "set (group_keys d0) = set (map int [0..<n])" using assms(2) by (simp add: group_keys_props)
qed

lemma finalizer_identity:
  fixes d0 :: "int list"
  assumes N: "length d0 < 2147483648" and dist: "distinct d0" and set: "set d0 = int ` {0..<length d0}"
    and res: "aggregate_exemplars False d0 = (ex, counts, d2)"
  shows "d2 = d0" "length ex = length d0" "length counts = length d0"
proof -
  note parts = aggregate_exemplars_parts [OF N res]
  have keys: "group_keys d0 = map int [0..<length d0]"
    by (rule group_keys_inverse_perm [OF dist set])
  show "length ex = length d0" "length counts = length d0" using parts(2,3) keys by simp_all
  show "d2 = d0"
  proof (rule nth_equalityI)
    show "length d2 = length d0" by (rule parts(1))
    fix r assume "r < length d2"
    then have r: "r < length d0" using parts(1) by simp
    from row_has_group [OF r] obtain g where g: "g < length (group_keys d0)" "r \<in> set (group_rows d0 ! g)"
      by blast
    then have "d0 ! r = group_keys d0 ! g" by (simp add: in_group_rows)
    also have "\<dots> = int g" using g(1) keys by simp
    finally have "d0 ! r = int g" .
    moreover from parts(5) [of g r] g have "d2 ! r = int g" by simp
    ultimately show "d2 ! r = d0 ! r" by simp
  qed
qed

lemma sample_exemplars_unique_keys:
  fixes d0 :: "int list"
  assumes "distinct d0" "set d0 = int ` {0..<length d0}" "length d0 \<le> max_bins" "max_bins < 2 ^ 64"
  shows "sample_exemplars max_bins 0 rs d0 = Some (d0, False)"
proof -
  have "ngroups (group_offsets d0) = length d0"
    by (simp add: ngroups_group_offsets group_keys_inverse_perm [OF assms(1,2)])
  with assms(3,4) show ?thesis by (intro sample_exemplars_not_sampled) simp
qed

text \<open>
  Claim C5, amended. When the 0-D path is taken and the sampler is not triggered, that
  is, when the table has fewer than \<open>min_rows\<close> rows, or has no column to aggregate by
  and at most \<open>nd_max_bins\<close> rows: \<open>aggregate\<close> returns, the number of exemplars is the
  number \<open>N\<close> of input rows, and the members column is a permutation of \<open>[0, N)\<close>, with
  \<open>members[i]\<close> the position of row \<open>i\<close> in the sort of the table by its first column,
  missing values last.
\<close>

theorem group_0d_path_permutation:
  assumes wf: "well_formed P E dt"
    and path: "nrows dt < min_rows P
               \<or> (length (contconvs_of dt) + length (catcols_of dt) = 0 \<and> nrows dt \<le> nd_max_bins P)"
  shows "aggregate eps P E dt outs \<noteq> None
       \<and> (\<forall>outs'. aggregate eps P E dt outs = Some (Inr (), outs') \<longrightarrow>
            (\<exists>ex d2. dt_exemplars_in outs' = Some ex \<and> dt_members_in outs' = Some d2
               \<and> length (exemplar_rows ex) = nrows dt \<and> length d2 = nrows dt
               \<and> distinct d2 \<and> set d2 = int ` {0..<nrows dt}
               \<and> (\<forall>i<nrows dt. first_column_order dt ! nat (d2 ! i) = i)))"
proof -
  define d0 where "d0 = group_0d_table dt (fresh_members E)"
  note ranks = group_0d_table_ranks [OF wf, folded d0_def]
  note perm = inverse_perm_props [OF ranks]
  from wf have N: "length d0 < 2147483648" and mb: "nd_max_bins P < 2 ^ 64"
    by (simp_all add: well_formed_def ranks(1))
  have run: "aggregate eps P E dt outs
      = (case progress_sink E 0 0 of Some x \<Rightarrow> Some (Inl (SinkError x), outs)
         | None \<Rightarrow> Some (finish E False d0 outs))"
  proof (cases "nrows dt \<ge> min_rows P")
    case False
    then show ?thesis unfolding d0_def by (simp add: aggregate_def)
  next
    case True
    with path have p: "length (contconvs_of dt) + length (catcols_of dt) = 0"
      "length d0 \<le> nd_max_bins P" by (simp_all add: ranks(1))
    have "sample_exemplars (nd_max_bins P) 0 (rand_results E) d0 = Some (d0, False)"
      using perm(1,2) p(2) mb by (intro sample_exemplars_unique_keys) (simp_all add: ranks(1))
    with True show ?thesis unfolding d0_def
      by (simp add: aggregate_def dispatch_0d [OF p(1)] split: option.splits)
  qed
  have "\<exists>ex d2. dt_exemplars_in outs' = Some ex \<and> dt_members_in outs' = Some d2
               \<and> length (exemplar_rows ex) = nrows dt \<and> length d2 = nrows dt
               \<and> distinct d2 \<and> set d2 = int ` {0..<nrows dt}
               \<and> (\<forall>i<nrows dt. first_column_order dt ! nat (d2 ! i) = i)"
    if "aggregate eps P E dt outs = Some (Inr (), outs')" for outs'
  proof -
    from that run have fin: "finish E False d0 outs = (Inr (), outs')"
      by (auto split: option.splits)
    from finish_result [OF fin] obtain ex counts d2 where
      agg: "aggregate_exemplars False d0 = (ex, counts, d2)"
      and outs': "outs' = \<lparr>dt_exemplars_in = Some \<lparr>exemplar_rows = ex, members_count = counts\<rparr>,
                         dt_members_in = Some d2\<rparr>" by blast
    from finalizer_identity [OF N perm(1) _ agg] perm(2) ranks(1)
    have "d2 = d0" "length ex = nrows dt" by simp_all
    with perm ranks(1) show ?thesis by (simp add: outs')
  qed
  moreover have "aggregate eps P E dt outs \<noteq> None"
    by (simp add: run split: option.splits)
  ultimately show ?thesis by blast
qed

theorem group_0d_path_permutation_witness:
  "well_formed
     \<lparr>min_rows = 10, n_bins = 5, nx_bins = 2, ny_bins = 2, nd_max_bins = 100, max_dimensions = 5\<rparr>
     \<lparr>rand_results = [], fresh_members = [0, 0, 0], progress_sink = quiet_sink,
       nd_outcome = Inr [0, 0, 0]\<rparr>
     \<lparr>nrows = 3, columns = [NumCol FLOAT64 [Some 3, None, Some 1]]\<rparr>
   \<and> nrows \<lparr>nrows = 3, columns = [NumCol FLOAT64 [Some 3, None, Some 1]]\<rparr>
      < min_rows \<lparr>min_rows = 10, n_bins = 5, nx_bins = 2, ny_bins = 2, nd_max_bins = 100,
                  max_dimensions = 5\<rparr>
   \<and> aggregate epsilon_double
     \<lparr>min_rows = 10, n_bins = 5, nx_bins = 2, ny_bins = 2, nd_max_bins = 100, max_dimensions = 5\<rparr>
     \<lparr>rand_results = [], fresh_members = [0, 0, 0], progress_sink = quiet_sink,
       nd_outcome = Inr [0, 0, 0]\<rparr>
     \<lparr>nrows = 3, columns = [NumCol FLOAT64 [Some 3, None, Some 1]]\<rparr>
     \<lparr>dt_exemplars_in = None, dt_members_in = None\<rparr>
   = Some (Inr (), \<lparr>dt_exemplars_in = Some \<lparr>exemplar_rows = [2, 0, 1], members_count = [1, 1, 1]\<rparr>,
                    dt_members_in = Some [1, 2, 0]\<rparr>)
   \<and> first_column_order \<lparr>nrows = 3, columns = [NumCol FLOAT64 [Some 3, None, Some 1]]\<rparr> = [2, 0, 1]
   \<and> distinct [1, 2, 0 :: int] \<and> set [1, 2, 0] = int ` {0..<3}"
proof -
  let ?P = "\<lparr>min_rows = 10, n_bins = 5, nx_bins = 2, ny_bins = 2, nd_max_bins = 100, max_dimensions = 5\<rparr>"
  let ?E = "\<lparr>rand_results = [], fresh_members = [0, 0, 0], progress_sink = quiet_sink,
       nd_outcome = Inr [0, 0, 0]\<rparr>"
  let ?dt = "\<lparr>nrows = 3, columns = [NumCol FLOAT64 [Some 3, None, Some 1]]\<rparr>"
  let ?outs = "\<lparr>dt_exemplars_in = None, dt_members_in = None\<rparr>"
  have wf: "well_formed ?P ?E ?dt" by (simp add: well_formed_def col_length_def)
  have path: "nrows ?dt < min_rows ?P
    \<or> (length (contconvs_of ?dt) + length (catcols_of ?dt) = 0 \<and> nrows ?dt \<le> nd_max_bins ?P)"
    by simp
  have ord: "first_column_order ?dt = [2, 0, 1]"
    by (simp add: first_column_order_def sort_na_last_def upt3)
  have g: "group_0d_table ?dt [0, 0, 0] = [1, 2, 0]"
    by (simp add: group_0d_table_def group_0d_def sort_na_last_def upt3 to_i32_def)
  have f: "aggregate_exemplars False [1, 2, 0] = ([2, 0, 1], [1, 1, 1], [1, 2, 0])"
    by (simp add: aggregate_exemplars_def group_keys_def group_rows_def group_ri_def
        group_offsets_def upt3 ngroups_def to_i32_def Let_def)
  have a: "aggregate epsilon_double ?P ?E ?dt ?outs
    = Some (Inr (), \<lparr>dt_exemplars_in = Some \<lparr>exemplar_rows = [2, 0, 1], members_count = [1, 1, 1]\<rparr>,
                    dt_members_in = Some [1, 2, 0]\<rparr>)"
    by (simp add: aggregate_def g finish_def f)
  from group_0d_path_permutation [OF wf path, of epsilon_double ?outs] a
  have "distinct [1, 2, 0 :: int] \<and> set [1, 2, 0] = int ` {0..<3}" by simp
  with wf a ord show ?thesis by simp
qed

text \<open>
  Claim C5 as stated fails where the 0-D path is taken for want of columns to
  aggregate by and the table has more than \<open>nd_max_bins\<close> rows: for three string
  columns of two rows and \<open>nd_max_bins = 1\<close>, \<open>sample_exemplars(nd_max_bins, 0)\<close> keeps one
  exemplar, and the members column is not a permutation of \<open>[0, 2)\<close>.
\<close>

theorem group_0d_path_sampled_counterexample:
  "length (contconvs_of \<lparr>nrows = 2, columns = [CatCol STR32 [Some ''a'', Some ''b''],
       CatCol STR32 [Some ''c'', Some ''d''], CatCol STR32 [Some ''e'', Some ''f'']]\<rparr>)
   + length (catcols_of \<lparr>nrows = 2, columns = [CatCol STR32 [Some ''a'', Some ''b''],
       CatCol STR32 [Some ''c'', Some ''d''], CatCol STR32 [Some ''e'', Some ''f'']]\<rparr>) = 0
   \<and> aggregate epsilon_double
        \<lparr>min_rows = 0, n_bins = 5, nx_bins = 2, ny_bins = 2, nd_max_bins = 1, max_dimensions = 5\<rparr>
        \<lparr>rand_results = [0], fresh_members = [0, 0], progress_sink = quiet_sink,
          nd_outcome = Inr [0, 0]\<rparr>
        \<lparr>nrows = 2, columns = [CatCol STR32 [Some ''a'', Some ''b''],
          CatCol STR32 [Some ''c'', Some ''d''], CatCol STR32 [Some ''e'', Some ''f'']]\<rparr>
        \<lparr>dt_exemplars_in = None, dt_members_in = None\<rparr>
      = Some (Inr (), \<lparr>dt_exemplars_in = Some \<lparr>exemplar_rows = [0], members_count = [1]\<rparr>,
                       dt_members_in = Some [0, NA_I4]\<rparr>)
   \<and> length [0 :: int] \<noteq> 2 \<and> set [0, NA_I4] \<noteq> int ` {0..<2}"
proof -
  let ?dt = "\<lparr>nrows = 2, columns = [CatCol STR32 [Some ''a'', Some ''b''],
       CatCol STR32 [Some ''c'', Some ''d''], CatCol STR32 [Some ''e'', Some ''f'']]\<rparr>"
  have "contconvs_of ?dt = []" "catcols_of ?dt = []"
    by (simp_all add: contconvs_of_def catcols_of_def)
  then have n: "length (contconvs_of ?dt) + length (catcols_of ?dt) = 0" by simp
  have "NA_I4 \<notin> int ` {0..<2}" by (auto simp: NA_I4_def)
  then have s: "set [0, NA_I4] \<noteq> int ` {0..<2}" by auto
  have l: "length [0 :: int] \<noteq> 2" by simp
  from n aggregate_three_string_columns l s show ?thesis by blast
qed

section \<open>One continuous column\<close>















text \<open>
  The members column of the rows \<open>3\<close>, \<open>4\<close>, NA in \<open>double\<close> with one bin: the rounded
  coefficients are \<open>1 - \<epsilon>\<close> and \<open>- (3 - 4\<epsilon>)\<close>, and the column maximum goes to bin
  \<open>n_bins\<close>.
\<close>

lemma epsilon_double_numeral: "epsilon_double = 1 / 4503599627370496"
  by (simp add: epsilon_double_def)


lemma coeffs_of_three:
  "set_norm_coeffs (1 / 4503599627370496) 3 4 1
     = (4503599627370495 / 4503599627370496, - (3377699720527871 / 1125899906842624))"
  unfolding set_norm_coeffs_def Let_def by (simp add: round_T_def ulp.simps round_even_def)

lemma norm_of_three:
  "i32_of_real (norm_T (1 / 4503599627370496)
      (4503599627370495 / 4503599627370496, - (3377699720527871 / 1125899906842624)) 3) = 0"
  "i32_of_real (norm_T (1 / 4503599627370496)
      (4503599627370495 / 4503599627370496, - (3377699720527871 / 1125899906842624)) 4) = 1"
  unfolding norm_T_def round_T_def Let_def
  by (simp_all add: ulp.simps round_even_def i32_of_real_def to_i32_def)





subsection \<open>Column maxima under rounding\<close>

text \<open>
  Two more tables in \<open>double\<close> whose maximum is rounded into the bin after the last
  one: the column \<open>0\<close>, \<open>39\<close>, \<open>38\<close> with five bins, and two columns \<open>3\<close>, \<open>4\<close> with one bin
  on each axis.
\<close>

lemma coeffs_of_39:
  "set_norm_coeffs (1 / 4503599627370496) 0 39 5 = (288692283805801 / 2251799813685248, 0)"
  unfolding set_norm_coeffs_def Let_def by (simp add: round_T_def ulp.simps round_even_def)

lemma norm_of_39:
  "i32_of_real (norm_T (1 / 4503599627370496) (288692283805801 / 2251799813685248, 0) 0) = 0"
  "i32_of_real (norm_T (1 / 4503599627370496) (288692283805801 / 2251799813685248, 0) 39) = 5"
  "i32_of_real (norm_T (1 / 4503599627370496) (288692283805801 / 2251799813685248, 0) 38) = 4"
  unfolding norm_T_def round_T_def Let_def
  by (simp_all add: ulp.simps round_even_def i32_of_real_def to_i32_def)

lemma bins_of_39:
  "group_1d_continuous epsilon_double 5 \<lparr>cc_min = 0, cc_max = 39, cc_vals = [Some 0, Some 39, Some 38]\<rparr>
     = [0, 5, 4]"
  unfolding group_1d_continuous_def epsilon_double_numeral Let_def
  by (simp add: get_nrows_def ISNA_def upt3 coeffs_of_39 norm_of_39)

lemma bins_of_two_by_two:
  "group_2d_continuous epsilon_double 1 1 \<lparr>cc_min = 3, cc_max = 4, cc_vals = [Some 3, Some 4]\<rparr>
      \<lparr>cc_min = 3, cc_max = 4, cc_vals = [Some 3, Some 4]\<rparr>
     = [0, 2]"
  unfolding group_2d_continuous_def epsilon_double_numeral Let_def
  by (simp add: get_nrows_def ISNA_def b2i_def upt2 coeffs_of_three [unfolded One_nat_def]
        norm_of_three to_i32_def)

end
